theory Spec2Isabelle
  imports Complex_Main "HOL-Library.Multiset"
begin

section \<open>Product-Key Memory layer (PKM-layer.ipynb)\<close>

text \<open>
  A shallow embedding of the notebook's \<^verbatim>\<open>get_uniform_keys\<close> and of the class
  \<^verbatim>\<open>HashingMemory\<close>. Tensors of floating-point numbers are nested lists of real numbers. The
  arithmetic of the library (sums, products, exponentials) is idealised as exact real
  arithmetic; the one explicit change of precision in the source, the cast of the keys to
  single precision, is modelled as a rounding.
  A tensor of shape \<open>(r, c)\<close> is a list of \<open>r\<close> rows; where the code depends on the size
  of a dimension that an empty list of rows cannot carry, the size is passed along.
  Every exception of the source is a value of type \<open>error\<close>.
\<close>

subsection \<open>Errors\<close>

datatype error =
  AssertionError | RuntimeError | ValueError | TypeError | IndexError | ZeroDivisionError

definition bind_err :: "error + 'a \<Rightarrow> ('a \<Rightarrow> error + 'b) \<Rightarrow> error + 'b" where
  "bind_err r f = (case r of Inl e \<Rightarrow> Inl e | Inr v \<Rightarrow> f v)"

text \<open>A Python list comprehension: items are evaluated in order, the first exception ends it.\<close>

fun sequence_err :: "(error + 'a) list \<Rightarrow> error + 'a list" where
  "sequence_err [] = Inr []"
| "sequence_err (r # rs) = bind_err r (\<lambda>v. bind_err (sequence_err rs) (\<lambda>vs. Inr (v # vs)))"

subsection \<open>Tensor primitives of the library\<close>

type_synonym vec = "real list"
type_synonym matrix = "real list list"

text \<open>The inner product of two vectors of the same length. It is only ever applied behind
  the check of the widths that the library makes (\<open>linear\<close>, \<open>nn_linear\<close>).\<close>

definition dot :: "vec \<Rightarrow> vec \<Rightarrow> real" where
  "dot xs ys = sum_list (map2 (*) xs ys)"

text \<open>\<^verbatim>\<open>F.linear(x, W, bias=None)\<close>: \<open>x\<close> of shape \<open>(bs, d)\<close>, \<open>W\<close> of shape
  \<open>(n, d')\<close>, result \<open>x W\<^sup>T\<close> of shape \<open>(bs, n)\<close>. The library raises RuntimeError
  unless \<open>d' = d\<close>. The width \<open>d\<close> of \<open>x\<close> is passed along, since it is known also for
  an empty batch.\<close>

definition linear :: "nat \<Rightarrow> matrix \<Rightarrow> matrix \<Rightarrow> error + matrix" where
  "linear d x W =
     (if \<not> (list_all (\<lambda>r. length r = d) x \<and> list_all (\<lambda>w. length w = d) W)
      then Inl RuntimeError
      else Inr (map (\<lambda>r. map (\<lambda>w. dot r w) W) x))"

text \<open>\<^verbatim>\<open>torch.topk(k, dim=1)\<close> on one row: the \<open>k\<close> largest entries in descending order
  with their positions. Among equal entries the library's order is implementation-defined;
  the model takes the lower position first (a stable sort of the positions).\<close>

definition topk_row :: "nat \<Rightarrow> vec \<Rightarrow> vec \<times> nat list" where
  "topk_row k xs =
     (let idx = take k (sort_key (\<lambda>i. - (xs ! i)) [0..<length xs])
      in (map (\<lambda>i. xs ! i) idx, idx))"

text \<open>\<^verbatim>\<open>topk\<close> on a tensor of shape \<open>(bs, n)\<close>: the library raises RuntimeError when
  \<open>k\<close> exceeds \<open>n\<close>, also on an empty batch.\<close>

definition topk :: "nat \<Rightarrow> nat \<Rightarrow> matrix \<Rightarrow> error + (matrix \<times> nat list list)" where
  "topk k n x =
     (if k > n then Inl RuntimeError
      else Inr (map (\<lambda>r. fst (topk_row k r)) x, map (\<lambda>r. snd (topk_row k r)) x))"

subsection \<open>The product-key selector: \<^verbatim>\<open>HashingMemory._get_indices\<close>\<close>

text \<open>One row of
  \<^verbatim>\<open>(scores1.view(bs, knn, 1).expand(bs, knn, knn) + scores2.view(bs, 1, knn).expand(bs, knn, knn)).view(bs, -1)\<close>:
  entry \<open>i * knn + j\<close> is \<open>scores1[i] + scores2[j]\<close>; likewise for the indices.\<close>

definition cartesian_sum :: "vec \<Rightarrow> vec \<Rightarrow> vec" where
  "cartesian_sum s1 s2 = concat (map (\<lambda>a. map (\<lambda>b. a + b) s2) s1)"

definition cartesian_index :: "nat \<Rightarrow> nat list \<Rightarrow> nat list \<Rightarrow> nat list" where
  "cartesian_index n_keys i1 i2 = concat (map (\<lambda>a. map (\<lambda>b. a * n_keys + b) i2) i1)"

text \<open>\<^verbatim>\<open>all_indices.gather(1, best_indices)\<close>.\<close>

definition gather :: "nat list list \<Rightarrow> nat list list \<Rightarrow> nat list list" where
  "gather x idx = map2 (\<lambda>row best. map (\<lambda>p. row ! p) best) x idx"

text \<open>\<^verbatim>\<open>_get_indices(self, query, subkeys)\<close> for one head. \<open>query\<close> has shape
  \<open>(bs, k_dim)\<close>, \<open>subkeys\<close> is the pair \<open>(subkeys[0], subkeys[1])\<close>, each of shape
  \<open>(n_keys, half)\<close>. The two halves of the query have the widths \<open>half\<close> and
  \<open>k_dim - half\<close>, and \<^verbatim>\<open>F.linear\<close> raises when the sub-keys have another width. The
  flattening \<^verbatim>\<open>.view(bs, -1)\<close> of a tensor without elements raises
  RuntimeError when \<open>bs = 0\<close> (the size of the free dimension is ambiguous). The final
  assertion on the shapes holds on every path that reaches it (lemma
  \<open>get_indices_head_shape\<close>).\<close>

definition get_indices_head ::
  "nat \<Rightarrow> nat \<Rightarrow> matrix \<Rightarrow> matrix \<times> matrix \<Rightarrow> error + (matrix \<times> nat list list)" where
  "get_indices_head knn k_dim query subkeys =
     (if \<not> list_all (\<lambda>q. length q = k_dim) query then Inl AssertionError
      else
        let bs = length query;
            half = k_dim div 2;
            n_keys = length (fst subkeys);
            q1 = map (take half) query;
            q2 = map (drop half) query
        in bind_err (linear half q1 (fst subkeys)) (\<lambda>scores1.
           bind_err (linear (k_dim - half) q2 (snd subkeys)) (\<lambda>scores2.
           bind_err (topk knn n_keys scores1) (\<lambda>(scores1, indices1).
           bind_err (topk knn (length (snd subkeys)) scores2) (\<lambda>(scores2, indices2).
           let all_scores = map2 cartesian_sum scores1 scores2;
               all_indices = map2 (cartesian_index n_keys) indices1 indices2
           in if bs = 0 then Inl RuntimeError
              else bind_err (topk knn (knn * knn) all_scores) (\<lambda>(scores, best_indices).
                   Inr (scores, gather all_indices best_indices)))))))"

text \<open>Row-wise reading of the batched selector, used to state its properties: for one
  query row \<open>q\<close>, the rows of \<^verbatim>\<open>scores1\<close> and \<^verbatim>\<open>scores2\<close> before the first
  \<^verbatim>\<open>topk\<close>, and the pair of rows \<^verbatim>\<open>(scores, indices)\<close> that \<^verbatim>\<open>_get_indices\<close> returns
  for \<open>q\<close> (lemma \<open>get_indices_head_rows\<close> relates it to \<open>get_indices_head\<close>).\<close>

definition half_scores1 :: "nat \<Rightarrow> matrix \<times> matrix \<Rightarrow> vec \<Rightarrow> vec" where
  "half_scores1 k_dim subkeys q = map (\<lambda>w. dot (take (k_dim div 2) q) w) (fst subkeys)"

definition half_scores2 :: "nat \<Rightarrow> matrix \<times> matrix \<Rightarrow> vec \<Rightarrow> vec" where
  "half_scores2 k_dim subkeys q = map (\<lambda>w. dot (drop (k_dim div 2) q) w) (snd subkeys)"

definition select_row :: "nat \<Rightarrow> nat \<Rightarrow> matrix \<times> matrix \<Rightarrow> vec \<Rightarrow> vec \<times> nat list" where
  "select_row knn k_dim subkeys q =
     (let c1 = topk_row knn (half_scores1 k_dim subkeys q);
          c2 = topk_row knn (half_scores2 k_dim subkeys q);
          best = topk_row knn (cartesian_sum (fst c1) (fst c2))
      in (fst best,
          map (\<lambda>p. cartesian_index (length (fst subkeys)) (snd c1) (snd c2) ! p) (snd best)))"

subsection \<open>The uniform key generator: \<^verbatim>\<open>get_uniform_keys\<close>\<close>

text \<open>\<^verbatim>\<open>np.random.RandomState(seed)\<close> is a generator object of the library. Its stream of
  samples of \<^verbatim>\<open>random_sample()\<close> (doubles in \<open>[0, 1)\<close>) is the parameter \<open>rs\<close>:
  \<open>rs seed i\<close> is the \<open>i\<close>-th sample drawn from a generator seeded with \<open>seed\<close>. A
  generator is its seed and the number of samples drawn so far. The library raises
  ValueError for a seed outside \<open>[0, 2\<^sup>3\<^sup>2)\<close>.\<close>

type_synonym random_state = "nat \<times> nat"

definition RandomState :: "nat \<Rightarrow> error + random_state" where
  "RandomState seed = (if seed \<ge> 2 ^ 32 then Inl ValueError else Inr (seed, 0))"

text \<open>\<^verbatim>\<open>rng.uniform(low, high, (rows, cols))\<close>: \<open>low + (high - low) * random_sample()\<close>,
  filled in row-major order; the generator advances by \<open>rows * cols\<close> samples.\<close>

definition uniform ::
  "(nat \<Rightarrow> nat \<Rightarrow> real) \<Rightarrow> random_state \<Rightarrow> real \<Rightarrow> real \<Rightarrow> nat \<Rightarrow> nat \<Rightarrow> matrix \<times> random_state" where
  "uniform rs rng low high rows cols =
     (map (\<lambda>r. map (\<lambda>c. low + (high - low) * rs (fst rng) (snd rng + r * cols + c)) [0..<cols])
        [0..<rows],
      (fst rng, snd rng + rows * cols))"

text \<open>\<^verbatim>\<open>keys.astype(np.float32)\<close>: rounding to the nearest single-precision number, ties
  to the even significand. A single-precision number has a significand of 24 bits; below
  \<open>2\<^sup>-\<^sup>1\<^sup>2\<^sup>6\<close> the spacing stays \<open>2\<^sup>-\<^sup>1\<^sup>4\<^sup>9\<close> (subnormal numbers). Overflow to infinity is
  not modelled: the keys are bounded by 1 in absolute value.\<close>

definition round_half_even :: "real \<Rightarrow> int" where
  "round_half_even y =
     (let f = \<lfloor>y\<rfloor> in
      if y - of_int f < 1 / 2 then f
      else if 1 / 2 < y - of_int f then f + 1
      else if even f then f else f + 1)"

definition float32_ulp :: "real \<Rightarrow> real" where
  "float32_ulp x = 2 powr (of_int (max \<lfloor>log 2 \<bar>x\<bar>\<rfloor> (- 126)) - 23)"

definition astype_float32 :: "real \<Rightarrow> real" where
  "astype_float32 x =
     (if x = 0 then 0
      else of_int (round_half_even (x / float32_ulp x)) * float32_ulp x)"

text \<open>The argument \<open>dm\<close> is the source's \<^verbatim>\<open>dim\<close>.
  \<^verbatim>\<open>1 / math.sqrt(dim)\<close> raises ZeroDivisionError for \<open>dim = 0\<close>.\<close>

definition get_uniform_keys :: "(nat \<Rightarrow> nat \<Rightarrow> real) \<Rightarrow> nat \<Rightarrow> nat \<Rightarrow> nat \<Rightarrow> error + matrix" where
  "get_uniform_keys rs n_keys dm seed =
     bind_err (RandomState seed) (\<lambda>rng.
       if dm = 0 then Inl ZeroDivisionError
       else
         let bound = 1 / sqrt (real dm);
             keys = fst (uniform rs rng (- bound) bound n_keys dm)
         in Inr (map (map astype_float32) keys))"

subsection \<open>The module \<^verbatim>\<open>HashingMemory\<close>\<close>

record params =
  sparse :: bool
  k_dim :: nat
  heads :: nat
  knn :: nat
  n_keys :: nat
  query_batchnorm :: bool
  input_dropout :: real
  query_dropout :: real
  value_dropout :: real

text \<open>\<^verbatim>\<open>nn.BatchNorm1d\<close>: its affine parameters, running statistics and \<open>eps\<close>.\<close>

record batchnorm =
  bn_weight :: vec
  bn_bias :: vec
  running_mean :: vec
  running_var :: vec
  bn_eps :: real

text \<open>The attributes of the module. The module copies the fields of \<open>params\<close>; \<open>keys\<close> has
  shape \<open>(heads, 2, n_keys, k_dim // 2)\<close> and is a list of pairs of matrices;
  \<open>values_weight\<close> is the weight of the \<^verbatim>\<open>EmbeddingBag\<close>, \<open>proj_weight\<close>, \<open>proj_bias\<close>
  and \<open>proj_bn\<close> are the \<^verbatim>\<open>nn.Linear\<close> and the optional \<^verbatim>\<open>nn.BatchNorm1d\<close> of
  \<^verbatim>\<open>query_proj\<close>; \<open>training\<close> is the mode flag of \<^verbatim>\<open>nn.Module\<close>.\<close>

record memory = params +
  input_dim :: nat
  output_dim :: nat
  v_dim :: nat
  mem_size :: nat
  keys :: "(matrix \<times> matrix) list"
  values_weight :: matrix
  proj_weight :: matrix
  proj_bias :: vec
  proj_bn :: "batchnorm option"
  training :: bool

text \<open>\<^verbatim>\<open>initialize_keys\<close>: the comprehension runs over \<open>i\<close> in \<^verbatim>\<open>range(heads)\<close> and \<open>j\<close>
  in \<^verbatim>\<open>range(2)\<close>, and \<^verbatim>\<open>.view(heads, 2, n_keys, half)\<close> pairs entries \<open>2 h\<close> and
  \<open>2 h + 1\<close> of the list for head \<open>h\<close>.\<close>

definition initialize_keys ::
  "(nat \<Rightarrow> nat \<Rightarrow> real) \<Rightarrow> nat \<Rightarrow> nat \<Rightarrow> nat \<Rightarrow> error + (matrix \<times> matrix) list" where
  "initialize_keys rs hs nk kd =
     (let half = kd div 2 in
      bind_err (sequence_err (map (\<lambda>s. get_uniform_keys rs nk half s)
                  (concat (map (\<lambda>i. map (\<lambda>j. 2 * i + j) [0..<2]) [0..<hs]))))
        (\<lambda>ks. Inr (map (\<lambda>h. (ks ! (2 * h), ks ! (2 * h + 1))) [0..<hs])))"

text \<open>The random draws of the library at construction: the standard normal draws of
  \<^verbatim>\<open>nn.init.normal_\<close> for the value table and the initial weight and bias of
  \<^verbatim>\<open>nn.Linear\<close>, by position.\<close>

record torch_init =
  normal_draw :: "nat \<Rightarrow> nat \<Rightarrow> real"
  linear_weight_draw :: "nat \<Rightarrow> nat \<Rightarrow> real"
  linear_bias_draw :: "nat \<Rightarrow> real"

text \<open>\<^verbatim>\<open>HashingMemory.__init__\<close>. The assertion on \<open>k_dim\<close> comes before anything is
  built. \<^verbatim>\<open>self.v_dim ** -0.5\<close> raises ZeroDivisionError for \<open>output_dim = 0\<close>. A new
  \<^verbatim>\<open>BatchNorm1d\<close> has weight 1, bias 0, running mean 0, running variance 1 and
  \<open>eps = 1e-5\<close>; a new module is in training mode.\<close>

definition init ::
  "(nat \<Rightarrow> nat \<Rightarrow> real) \<Rightarrow> torch_init \<Rightarrow> nat \<Rightarrow> nat \<Rightarrow> params \<Rightarrow> error + memory" where
  "init rs lib idim odim p =
     (if \<not> (k_dim p \<ge> 2 \<and> k_dim p mod 2 = 0) then Inl AssertionError
      else
        bind_err (initialize_keys rs (heads p) (n_keys p) (k_dim p)) (\<lambda>ks.
          if odim = 0 then Inl ZeroDivisionError
          else
            let sz = n_keys p ^ 2;
                std = 1 / sqrt (real odim);
                n = heads p * k_dim p
            in Inr (params.extend p
                 \<lparr> input_dim = idim, output_dim = odim, v_dim = odim, mem_size = sz,
                   keys = ks,
                   values_weight =
                     map (\<lambda>r. map (\<lambda>c. std * normal_draw lib r c) [0..<odim]) [0..<sz],
                   proj_weight =
                     map (\<lambda>r. map (\<lambda>c. linear_weight_draw lib r c) [0..<idim]) [0..<n],
                   proj_bias = map (\<lambda>r. linear_bias_draw lib r) [0..<n],
                   proj_bn =
                     (if query_batchnorm p
                      then Some \<lparr> bn_weight = replicate n 1, bn_bias = replicate n 0,
                                  running_mean = replicate n 0, running_var = replicate n 1,
                                  bn_eps = 1 / 100000 \<rparr>
                      else None),
                   training = True \<rparr>)))"

subsection \<open>Reshaping\<close>

text \<open>\<^verbatim>\<open>x.view(-1, c)\<close> of a contiguous tensor with the elements \<open>xs\<close>: RuntimeError when
  \<open>c = 0\<close> (no size or an ambiguous size for the free dimension) or when \<open>c\<close> does not
  divide the number of elements.\<close>

definition view_rows :: "nat \<Rightarrow> 'a list \<Rightarrow> error + 'a list list" where
  "view_rows c xs =
     (if c = 0 \<or> length xs mod c \<noteq> 0 then Inl RuntimeError
      else Inr (map (\<lambda>i. take c (drop (i * c) xs)) [0..<length xs div c]))"

text \<open>\<^verbatim>\<open>x.view(r, c)\<close> of a two-dimensional tensor: RuntimeError unless \<open>r * c\<close> is the
  number of elements.\<close>

definition view2 :: "nat \<Rightarrow> nat \<Rightarrow> 'a list list \<Rightarrow> error + 'a list list" where
  "view2 r c x =
     (if r * c \<noteq> length (concat x) then Inl RuntimeError
      else Inr (map (\<lambda>i. take c (drop (i * c) (concat x))) [0..<r]))"

text \<open>\<^verbatim>\<open>x.view(-1, h, d)\<close> of a tensor of shape \<open>(n, d)\<close>: groups of \<open>h\<close> consecutive
  rows. RuntimeError when \<open>h * d = 0\<close> or \<open>h * d\<close> does not divide the number of
  elements \<open>n * d\<close>.\<close>

definition view3 :: "nat \<Rightarrow> nat \<Rightarrow> 'a list list \<Rightarrow> error + 'a list list list" where
  "view3 h d x =
     (if h * d = 0 \<or> (length x * d) mod (h * d) \<noteq> 0 then Inl RuntimeError
      else Inr (map (\<lambda>b. take h (drop (b * h) x)) [0..<(length x * d) div (h * d)]))"

subsection \<open>Dropout, projection, softmax and the embedding bag\<close>

text \<open>\<^verbatim>\<open>F.dropout(x, p, training)\<close>. The library checks \<open>0 \<le> p \<le> 1\<close> first, in both
  modes. In evaluation mode it returns \<open>x\<close>. In training mode an element is kept and
  scaled by \<open>1 / (1 - p)\<close>, or set to 0; the random choice is the argument \<open>keep\<close> (by
  position), and nothing is dropped when \<open>p = 0\<close>.\<close>

definition dropout_elem :: "real \<Rightarrow> bool \<Rightarrow> real \<Rightarrow> real" where
  "dropout_elem p kept v = (if p < 1 \<and> (p = 0 \<or> kept) then v / (1 - p) else 0)"

definition dropout :: "real \<Rightarrow> bool \<Rightarrow> (nat \<Rightarrow> bool) \<Rightarrow> vec \<Rightarrow> error + vec" where
  "dropout p train keep x =
     (if p < 0 \<or> p > 1 then Inl ValueError
      else if train then Inr (map2 (\<lambda>i v. dropout_elem p (keep i) v) [0..<length x] x)
      else Inr x)"

definition dropout2 :: "real \<Rightarrow> bool \<Rightarrow> (nat \<Rightarrow> nat \<Rightarrow> bool) \<Rightarrow> matrix \<Rightarrow> error + matrix" where
  "dropout2 p train keep x =
     (if p < 0 \<or> p > 1 then Inl ValueError
      else if train
        then Inr (map2 (\<lambda>r row. map2 (\<lambda>c v. dropout_elem p (keep r c) v) [0..<length row] row)
                    [0..<length x] x)
      else Inr x)"

record dropout_masks =
  input_mask :: "nat \<Rightarrow> bool"
  query_mask :: "nat \<Rightarrow> nat \<Rightarrow> bool"
  value_mask :: "nat \<Rightarrow> nat \<Rightarrow> bool"

text \<open>\<^verbatim>\<open>nn.Linear\<close> with bias, on an input of shape \<open>(bs, d)\<close>: RuntimeError unless the
  weight has shape \<open>(n, d)\<close> and the bias has \<open>n\<close> entries.\<close>

definition nn_linear :: "nat \<Rightarrow> matrix \<Rightarrow> vec \<Rightarrow> matrix \<Rightarrow> error + matrix" where
  "nn_linear d W b x =
     (if \<not> (list_all (\<lambda>r. length r = d) x \<and> list_all (\<lambda>w. length w = d) W \<and>
             length b = length W)
      then Inl RuntimeError
      else Inr (map (\<lambda>r. map2 (+) (map (\<lambda>w. dot r w) W) b) x))"

text \<open>\<^verbatim>\<open>nn.BatchNorm1d\<close> on a tensor of shape \<open>(bs, n)\<close>. In training mode it raises
  ValueError for a batch of one row. It raises RuntimeError unless its parameters and
  statistics have \<open>n\<close> entries. In evaluation mode it normalises with the running
  statistics, in training mode with the mean and the biased variance of the batch; there
  it also updates its running statistics, which the model of \<^verbatim>\<open>forward\<close> below does not
  return.\<close>

definition column :: "matrix \<Rightarrow> nat \<Rightarrow> vec" where
  "column x c = map (\<lambda>r. r ! c) x"

definition mean :: "vec \<Rightarrow> real" where
  "mean xs = sum_list xs / real (length xs)"

definition variance :: "vec \<Rightarrow> real" where
  "variance xs = sum_list (map (\<lambda>v. (v - mean xs) ^ 2) xs) / real (length xs)"

definition batch_norm :: "nat \<Rightarrow> batchnorm \<Rightarrow> bool \<Rightarrow> matrix \<Rightarrow> error + matrix" where
  "batch_norm n bn train x =
     (if train \<and> length x = 1 then Inl ValueError
      else if \<not> (list_all (\<lambda>r. length r = n) x \<and>
                   length (bn_weight bn) = n \<and> length (bn_bias bn) = n \<and>
                   length (running_mean bn) = n \<and> length (running_var bn) = n)
        then Inl RuntimeError
      else if train
        then Inr (map (\<lambda>r. map (\<lambda>c. (r ! c - mean (column x c)) / sqrt (variance (column x c) + bn_eps bn)
                                    * bn_weight bn ! c + bn_bias bn ! c) [0..<n]) x)
      else Inr (map (\<lambda>r. map (\<lambda>c. (r ! c - running_mean bn ! c) / sqrt (running_var bn ! c + bn_eps bn)
                                   * bn_weight bn ! c + bn_bias bn ! c) [0..<n]) x))"

text \<open>\<^verbatim>\<open>self.query_proj\<close>: the linear layer, then the batch normalisation when present.
  Its input comes from \<^verbatim>\<open>view(-1, self.input_dim)\<close> and has the width \<open>input_dim\<close>.\<close>

definition query_proj :: "memory \<Rightarrow> matrix \<Rightarrow> error + matrix" where
  "query_proj m x =
     bind_err (nn_linear (input_dim m) (proj_weight m) (proj_bias m) x) (\<lambda>y.
       case proj_bn m of
         None \<Rightarrow> Inr y
       | Some bn \<Rightarrow> batch_norm (length (proj_weight m)) bn (training m) y)"

text \<open>\<^verbatim>\<open>F.softmax(scores, dim=-1)\<close> on one row.\<close>

definition softmax :: "vec \<Rightarrow> vec" where
  "softmax xs = map (\<lambda>x. exp x / sum_list (map exp xs)) xs"

text \<open>\<^verbatim>\<open>nn.EmbeddingBag(size, v_dim, mode='sum')\<close> called with a two-dimensional input
  and \<^verbatim>\<open>per_sample_weights\<close>: every row of indices is a bag, and the output row is the sum
  over the bag of weight times table row, accumulated entry by entry. An index outside
  the table raises IndexError.\<close>

definition bag_sum :: "matrix \<Rightarrow> nat \<Rightarrow> nat list \<Rightarrow> vec \<Rightarrow> vec" where
  "bag_sum W d idx ws =
     foldl (\<lambda>acc (i, w). map2 (+) acc (map (\<lambda>v. w * v) (W ! i))) (replicate d 0) (zip idx ws)"

definition embedding_bag :: "matrix \<Rightarrow> nat \<Rightarrow> nat list list \<Rightarrow> matrix \<Rightarrow> error + matrix" where
  "embedding_bag W d idx ws =
     (if \<not> list_all (list_all (\<lambda>i. i < length W)) idx then Inl IndexError
      else Inr (map2 (bag_sum W d) idx ws))"

subsection \<open>\<^verbatim>\<open>HashingMemory.get_indices\<close>\<close>

text \<open>All heads: \<open>query\<close> has shape \<open>(bs * heads, k_dim)\<close>; head \<open>i\<close> sees the rows
  \<^verbatim>\<open>query[:, i]\<close> of the three-dimensional view. \<^verbatim>\<open>self.keys[i]\<close> raises IndexError
  outside the key tensor. The concatenation has shape \<open>(bs, heads, knn)\<close>, and its
  \<^verbatim>\<open>.view(-1, knn)\<close> raises RuntimeError when \<open>knn = 0\<close>.\<close>

definition get_indices :: "memory \<Rightarrow> matrix \<Rightarrow> error + (matrix \<times> nat list list)" where
  "get_indices m query =
     (if \<not> list_all (\<lambda>q. length q = k_dim m) query then Inl AssertionError
      else
        bind_err (view3 (heads m) (k_dim m) query) (\<lambda>query.
          let bs = length query in
          bind_err (sequence_err (map (\<lambda>i.
                      if i < length (keys m)
                      then get_indices_head (knn m) (k_dim m) (map (\<lambda>q. q ! i) query) (keys m ! i)
                      else Inl IndexError) [0..<heads m]))
            (\<lambda>outputs.
               let s = map (\<lambda>b. map (\<lambda>out. fst out ! b) outputs) [0..<bs];
                   i = map (\<lambda>b. map (\<lambda>out. snd out ! b) outputs) [0..<bs]
               in if knn m = 0 then Inl RuntimeError
                  else Inr (concat s, concat i))))"

subsection \<open>\<^verbatim>\<open>HashingMemory.forward\<close>\<close>

text \<open>A tensor with any number of dimensions: its shape and its elements in row-major
  order.\<close>

record tensor =
  shape :: "nat list"
  data :: "real list"

text \<open>The first part of \<^verbatim>\<open>forward\<close>, up to the assertion on the shape of \<open>query\<close>.
  \<^verbatim>\<open>input.shape[-1]\<close> raises IndexError on a tensor without dimensions.
  \<^verbatim>\<open>np.prod(prefix_shape)\<close> is the integer product of a non-empty shape, but the float
  \<open>1.0\<close> for the empty shape, and \<^verbatim>\<open>query.view(bs * self.heads, self.k_dim)\<close> then raises
  TypeError, a size that is not an integer.\<close>

definition forward_query :: "memory \<Rightarrow> dropout_masks \<Rightarrow> tensor \<Rightarrow> error + matrix" where
  "forward_query m masks input =
     (if shape input = [] then Inl IndexError
      else if last (shape input) \<noteq> input_dim m then Inl AssertionError
      else
        let prefix_shape = butlast (shape input);
            bs = prod_list prefix_shape
        in bind_err (dropout (input_dropout m) (training m) (input_mask masks) (data input)) (\<lambda>x.
           bind_err (view_rows (input_dim m) x) (\<lambda>x.
           bind_err (query_proj m x) (\<lambda>query.
           bind_err (if prefix_shape = [] then Inl TypeError
                     else view2 (bs * heads m) (k_dim m) query) (\<lambda>query.
           dropout2 (query_dropout m) (training m) (query_mask masks) query)))))"

text \<open>The second part: indices and softmax weights, merged over the heads to shape
  \<open>(bs, heads * knn)\<close>.\<close>

definition forward_select ::
  "memory \<Rightarrow> dropout_masks \<Rightarrow> tensor \<Rightarrow> error + (nat list list \<times> matrix)" where
  "forward_select m masks input =
     bind_err (forward_query m masks input) (\<lambda>query.
     bind_err (get_indices m query) (\<lambda>(scores, indices).
       let bs = prod_list (butlast (shape input));
           scores = map softmax scores
       in bind_err (view2 bs (heads m * knn m) indices) (\<lambda>indices.
          bind_err (view2 bs (heads m * knn m) scores) (\<lambda>scores.
          Inr (indices, scores)))))"

text \<open>\<^verbatim>\<open>forward\<close>: the weighted sum of values, the output dropout and the final reshape,
  which the source does only for two or more leading dimensions.\<close>

definition forward :: "memory \<Rightarrow> dropout_masks \<Rightarrow> tensor \<Rightarrow> error + tensor" where
  "forward m masks input =
     bind_err (forward_select m masks input) (\<lambda>(indices, scores).
     bind_err (embedding_bag (values_weight m) (v_dim m) indices scores) (\<lambda>output.
     bind_err (dropout2 (value_dropout m) (training m) (value_mask masks) output) (\<lambda>output.
       let prefix_shape = butlast (shape input)
       in Inr (if length prefix_shape \<ge> 2
               then \<lparr> shape = prefix_shape @ [v_dim m], data = concat output \<rparr>
               else \<lparr> shape = [length output, v_dim m], data = concat output \<rparr>))))"

subsection \<open>Shapes of the module's tensors\<close>

text \<open>The shapes that \<^verbatim>\<open>__init__\<close> gives to the parameters and that training never changes:
  the key tensor \<open>(heads, 2, n_keys, k_dim // 2)\<close>, the value table
  \<open>(n_keys\<^sup>2, v_dim)\<close>, the projection \<open>(heads * k_dim, input_dim)\<close> with its bias and its
  batch normalisation over \<open>heads * k_dim\<close> features.\<close>

definition wf_keys :: "nat \<Rightarrow> nat \<Rightarrow> nat \<Rightarrow> (matrix \<times> matrix) list \<Rightarrow> bool" where
  "wf_keys hs nk half ks \<longleftrightarrow>
     length ks = hs \<and>
     list_all (\<lambda>sk. length (fst sk) = nk \<and> length (snd sk) = nk \<and>
                     list_all (\<lambda>r. length r = half) (fst sk) \<and>
                     list_all (\<lambda>r. length r = half) (snd sk)) ks"

definition wf_batchnorm :: "nat \<Rightarrow> batchnorm option \<Rightarrow> bool" where
  "wf_batchnorm n b \<longleftrightarrow>
     (case b of None \<Rightarrow> True
      | Some bn \<Rightarrow> length (bn_weight bn) = n \<and> length (bn_bias bn) = n \<and>
                   length (running_mean bn) = n \<and> length (running_var bn) = n)"

definition wf_memory :: "memory \<Rightarrow> bool" where
  "wf_memory m \<longleftrightarrow>
     k_dim m \<ge> 2 \<and> k_dim m mod 2 = 0 \<and>
     v_dim m = output_dim m \<and> mem_size m = n_keys m ^ 2 \<and>
     wf_keys (heads m) (n_keys m) (k_dim m div 2) (keys m) \<and>
     length (values_weight m) = mem_size m \<and>
     list_all (\<lambda>r. length r = v_dim m) (values_weight m) \<and>
     length (proj_weight m) = heads m * k_dim m \<and>
     list_all (\<lambda>r. length r = input_dim m) (proj_weight m) \<and>
     length (proj_bias m) = heads m * k_dim m \<and>
     wf_batchnorm (heads m * k_dim m) (proj_bn m)"

text \<open>A tensor is its shape with as many elements as the shape says.\<close>

definition wf_tensor :: "tensor \<Rightarrow> bool" where
  "wf_tensor x \<longleftrightarrow> length (data x) = prod_list (shape x)"

subsection \<open>The weighted sum of table rows, as the specification words it\<close>

text \<open>Gather the selected rows of the value table, then take, entry by entry, the dot
  product of the weights with the gathered rows. A row selected several times is gathered
  several times, so its weighted contributions add up.\<close>

definition gather_rows :: "matrix \<Rightarrow> nat list \<Rightarrow> matrix" where
  "gather_rows W idx = map (\<lambda>i. W ! i) idx"

definition weighted_sum :: "nat \<Rightarrow> matrix \<Rightarrow> vec \<Rightarrow> vec" where
  "weighted_sum d rows ws = map (\<lambda>c. sum_list (map2 (\<lambda>w row. w * row ! c) ws rows)) [0..<d]"

subsection \<open>A small module for the examples\<close>

text \<open>Two heads with the same keys, two keys per half, one row read per head, a table of
  four one-dimensional values, no batch normalisation, evaluation mode, and all three
  dropout rates positive.\<close>

definition example_memory :: memory where
  "example_memory =
     \<lparr> sparse = False, k_dim = 2, heads = 2, knn = 1, n_keys = 2, query_batchnorm = False,
       input_dropout = 1 / 2, query_dropout = 1 / 4, value_dropout = 1 / 10,
       input_dim = 1, output_dim = 1, v_dim = 1, mem_size = 4,
       keys = [([[1], [0]], [[1], [0]]), ([[1], [0]], [[1], [0]])],
       values_weight = [[1], [2], [3], [4]],
       proj_weight = [[1], [1], [1], [1]], proj_bias = [0, 0, 0, 0],
       proj_bn = None, training = False \<rparr>"

definition example_masks :: dropout_masks where
  "example_masks =
     \<lparr> input_mask = (\<lambda>i. True), query_mask = (\<lambda>r c. True), value_mask = (\<lambda>r c. True) \<rparr>"

text \<open>A stand-in for the generator's stream: samples in \<open>[0, 1)\<close> that depend on the seed
  and the position.\<close>

definition example_stream :: "nat \<Rightarrow> nat \<Rightarrow> real" where
  "example_stream seed i = real ((seed + i) mod 4) / 4"

text \<open>Draws for the construction of an example module.\<close>

definition example_init :: torch_init where
  "example_init =
     \<lparr> normal_draw = (\<lambda>r c. 0), linear_weight_draw = (\<lambda>r c. 1), linear_bias_draw = (\<lambda>r. 0) \<rparr>"

text \<open>A stream that carries, for seed 7 at position \<open>438 * 180 + 51\<close>, the sample that the
  library's generator (MT19937, 53-bit samples) yields there, \<open>117115007 / 2\<^sup>5\<^sup>3\<close>; the
  other positions are not read in the example that uses it.\<close>

definition seed7_stream :: "nat \<Rightarrow> nat \<Rightarrow> real" where
  "seed7_stream seed i = (if seed = 7 \<and> i = 78891 then 117115007 / 2 ^ 53 else 0)"

text \<open>A second module: two heads with different keys, two rows read per head
  (\<open>knn = 2\<close>), evaluation mode. On the input 1 the first head selects the rows 0 and 2
  with the scores 4 and 3, the second head the rows 2 and 0 with the scores 3 and 1.\<close>

definition example_memory2 :: memory where
  "example_memory2 =
     \<lparr> sparse = False, k_dim = 2, heads = 2, knn = 2, n_keys = 2, query_batchnorm = False,
       input_dropout = 0, query_dropout = 0, value_dropout = 0,
       input_dim = 1, output_dim = 1, v_dim = 1, mem_size = 4,
       keys = [([[1], [0]], [[3], [0]]), ([[0], [2]], [[1], [- 2]])],
       values_weight = [[1], [2], [3], [4]],
       proj_weight = [[1], [1], [1], [1]], proj_bias = [0, 0, 0, 0],
       proj_bn = None, training = False \<rparr>"

subsection \<open>Facts about the library primitives\<close>

lemma bind_err_Inr [simp]: "bind_err (Inr v) f = f v"
  by (simp add: bind_err_def)

lemma bind_err_Inl [simp]: "bind_err (Inl e) f = Inl e"
  by (simp add: bind_err_def)


lemma topk_row_snd: "snd (topk_row k xs) = take k (sort_key (\<lambda>i. - (xs ! i)) [0..<length xs])"
  by (simp add: topk_row_def Let_def)

lemma topk_row_fst: "fst (topk_row k xs) = map (\<lambda>i. xs ! i) (snd (topk_row k xs))"
  by (simp add: topk_row_def Let_def)

lemma topk_row_length_snd: "length (snd (topk_row k xs)) = min k (length xs)"
  by (simp add: topk_row_snd min.commute)

lemma topk_row_length_fst: "length (fst (topk_row k xs)) = min k (length xs)"
  by (simp add: topk_row_fst topk_row_length_snd)

lemma topk_row_distinct: "distinct (snd (topk_row k xs))"
  by (simp add: topk_row_snd)

lemma topk_row_index_bound: "i \<in> set (snd (topk_row k xs)) \<Longrightarrow> i < length xs"
proof -
  assume "i \<in> set (snd (topk_row k xs))"
  then have "i \<in> set (sort_key (\<lambda>i. - (xs ! i)) [0..<length xs])"
    unfolding topk_row_snd by (rule in_set_takeD)
  then show ?thesis by simp
qed





lemma outer_length:
  "length (concat (map (\<lambda>a. map (f a) ys) xs)) = length xs * length ys"
  by (induction xs) auto

lemma outer_nth:
  "i < length xs \<Longrightarrow> j < length ys \<Longrightarrow>
   concat (map (\<lambda>a. map (f a) ys) xs) ! (i * length ys + j) = f (xs ! i) (ys ! j)"
proof (induction xs arbitrary: i)
  case Nil
  then show ?case by simp
next
  case (Cons x xs)
  show ?case
  proof (cases i)
    case 0
    with Cons.prems show ?thesis by (simp add: nth_append)
  next
    case (Suc i')
    with Cons.prems have "i' < length xs" by simp
    from Cons.IH [OF this Cons.prems(2)] Suc show ?thesis
      by (simp add: nth_append)
  qed
qed

lemma outer_nth_divmod:
  assumes "p < length xs * length ys"
  shows "concat (map (\<lambda>a. map (f a) ys) xs) ! p = f (xs ! (p div length ys)) (ys ! (p mod length ys))"
proof -
  from assms have pos: "0 < length ys" by (cases "length ys") auto
  from assms have "p div length ys < length xs"
    by (simp add: less_mult_imp_div_less)
  moreover from pos have "p mod length ys < length ys" by simp
  ultimately have "concat (map (\<lambda>a. map (f a) ys) xs) ! (p div length ys * length ys + p mod length ys)
      = f (xs ! (p div length ys)) (ys ! (p mod length ys))"
    by (rule outer_nth)
  then show ?thesis by simp
qed

subsection \<open>Correctness of the selector\<close>

lemma map2_same: "map2 f (map g xs) (map h xs) = map (\<lambda>x. f (g x) (h x)) xs"
  by (induction xs) auto

lemma linear_Inr:
  assumes "list_all (\<lambda>r. length r = d) x" and "list_all (\<lambda>w. length w = d) W"
  shows "linear d x W = Inr (map (\<lambda>r. map (\<lambda>w. dot r w) W) x)"
  using assms by (simp add: linear_def)

lemma linear_InrD:
  assumes "linear d x W = Inr y"
  shows "list_all (\<lambda>w. length w = d) W" and "y = map (\<lambda>r. map (\<lambda>w. dot r w) W) x"
  using assms by (auto simp: linear_def split: if_splits)

lemma query_halves:
  assumes "list_all (\<lambda>q. length q = kd) query"
  shows "list_all (\<lambda>r. length r = kd div 2) (map (take (kd div 2)) query)"
    and "list_all (\<lambda>r. length r = kd - kd div 2) (map (drop (kd div 2)) query)"
  using assms by (auto simp: list_all_iff)

lemma get_indices_head_rows:
  assumes "list_all (\<lambda>q. length q = kd) query" and "query \<noteq> []"
    and "kn \<le> length (fst subkeys)" and "kn \<le> length (snd subkeys)"
    and "list_all (\<lambda>w. length w = kd div 2) (fst subkeys)"
    and "list_all (\<lambda>w. length w = kd - kd div 2) (snd subkeys)"
  shows "get_indices_head kn kd query subkeys =
           Inr (map (\<lambda>q. fst (select_row kn kd subkeys q)) query,
                map (\<lambda>q. snd (select_row kn kd subkeys q)) query)"
proof -
  have sq: "kn \<le> kn * kn" by (cases kn) auto
  note h = query_halves [OF assms(1)]
  note l1 = linear_Inr [OF h(1) assms(5)]
  note l2 = linear_Inr [OF h(2) assms(6)]
  from assms(1-4) sq show ?thesis
    unfolding get_indices_head_def Let_def l1 l2 bind_err_Inr
    by (auto simp add: topk_def gather_def map2_same
        select_row_def half_scores1_def half_scores2_def comp_def Let_def)
qed

lemma get_indices_head_InrD:
  assumes "get_indices_head kn kd query subkeys = Inr r"
  shows "list_all (\<lambda>q. length q = kd) query \<and> query \<noteq> [] \<and>
         kn \<le> length (fst subkeys) \<and> kn \<le> length (snd subkeys) \<and>
         list_all (\<lambda>w. length w = kd div 2) (fst subkeys) \<and>
         list_all (\<lambda>w. length w = kd - kd div 2) (snd subkeys)"
proof -
  from assms have rows: "list_all (\<lambda>q. length q = kd) query"
    by (auto simp: get_indices_head_def split: if_splits)
  from assms rows obtain s1 where s1: "linear (kd div 2) (map (take (kd div 2)) query) (fst subkeys) = Inr s1"
    by (cases "linear (kd div 2) (map (take (kd div 2)) query) (fst subkeys)")
       (simp_all add: get_indices_head_def Let_def)
  from assms rows s1 obtain s2 where s2: "linear (kd - kd div 2) (map (drop (kd div 2)) query) (snd subkeys) = Inr s2"
    by (cases "linear (kd - kd div 2) (map (drop (kd div 2)) query) (snd subkeys)")
       (simp_all add: get_indices_head_def Let_def)
  from assms rows have "query \<noteq> [] \<and> kn \<le> length (fst subkeys) \<and> kn \<le> length (snd subkeys)"
    unfolding get_indices_head_def Let_def s1 s2 bind_err_Inr
    by (auto simp: topk_def split: if_splits)
  with rows linear_InrD(1) [OF s1] linear_InrD(1) [OF s2] show ?thesis by simp
qed


lemma select_row_fst:
  "fst (select_row kn kd subkeys q) =
     fst (topk_row kn (cartesian_sum (fst (topk_row kn (half_scores1 kd subkeys q)))
                                      (fst (topk_row kn (half_scores2 kd subkeys q)))))"
  by (simp add: select_row_def Let_def)

lemma select_row_snd:
  "snd (select_row kn kd subkeys q) =
     map (\<lambda>p. cartesian_index (length (fst subkeys))
                (snd (topk_row kn (half_scores1 kd subkeys q)))
                (snd (topk_row kn (half_scores2 kd subkeys q))) ! p)
       (snd (topk_row kn (cartesian_sum (fst (topk_row kn (half_scores1 kd subkeys q)))
                                         (fst (topk_row kn (half_scores2 kd subkeys q))))))"
  by (simp add: select_row_def Let_def)

lemma cartesian_sum_length: "length (cartesian_sum s1 s2) = length s1 * length s2"
  by (simp add: cartesian_sum_def outer_length)

lemma cartesian_index_length: "length (cartesian_index n i1 i2) = length i1 * length i2"
  by (simp add: cartesian_index_def outer_length)

lemma le_square: "(k::nat) \<le> k * k"
  by (cases k) auto

lemma select_row_lengths:
  assumes "kn \<le> length (fst subkeys)" and "kn \<le> length (snd subkeys)"
  shows "length (fst (select_row kn kd subkeys q)) = kn"
    and "length (snd (select_row kn kd subkeys q)) = kn"
proof -
  have l1: "length (fst (topk_row kn (half_scores1 kd subkeys q))) = kn"
    using assms(1) by (simp add: topk_row_length_fst half_scores1_def)
  have l2: "length (fst (topk_row kn (half_scores2 kd subkeys q))) = kn"
    using assms(2) by (simp add: topk_row_length_fst half_scores2_def)
  have lc: "length (cartesian_sum (fst (topk_row kn (half_scores1 kd subkeys q)))
                                  (fst (topk_row kn (half_scores2 kd subkeys q)))) = kn * kn"
    by (simp only: cartesian_sum_length l1 l2)
  have m: "min kn (kn * kn) = kn"
    using le_square [of kn] by simp
  show "length (fst (select_row kn kd subkeys q)) = kn"
    by (simp only: select_row_fst topk_row_length_fst lc m)
  show "length (snd (select_row kn kd subkeys q)) = kn"
    by (simp only: select_row_snd length_map topk_row_length_snd lc m)
qed

text \<open>Every selected entry is the sum and the combined index of one pair of candidates.\<close>

lemma select_row_pair:
  fixes kn kd t :: nat and subkeys :: "matrix \<times> matrix" and q :: vec
  assumes "kn \<le> length (fst subkeys)" and "kn \<le> length (snd subkeys)" and "t < kn"
  defines "c1 \<equiv> topk_row kn (half_scores1 kd subkeys q)"
    and "c2 \<equiv> topk_row kn (half_scores2 kd subkeys q)"
  defines "p \<equiv> snd (topk_row kn (cartesian_sum (fst c1) (fst c2))) ! t"
  shows "p < kn * kn"
    and "fst (select_row kn kd subkeys q) ! t = fst c1 ! (p div kn) + fst c2 ! (p mod kn)"
    and "snd (select_row kn kd subkeys q) ! t =
           snd c1 ! (p div kn) * length (fst subkeys) + snd c2 ! (p mod kn)"
proof -
  have l1: "length (fst c1) = kn" "length (snd c1) = kn"
    using assms(1) by (simp_all add: c1_def topk_row_length_fst topk_row_length_snd half_scores1_def)
  have l2: "length (fst c2) = kn" "length (snd c2) = kn"
    using assms(2) by (simp_all add: c2_def topk_row_length_fst topk_row_length_snd half_scores2_def)
  let ?best = "topk_row kn (cartesian_sum (fst c1) (fst c2))"
  have lb: "length (snd ?best) = kn"
    using le_square [of kn] by (simp add: topk_row_length_snd [of kn "cartesian_sum (fst c1) (fst c2)"] cartesian_sum_length l1 l2)
  with assms(3) have "p \<in> set (snd ?best)"
    by (simp add: p_def)
  then have "p < length (cartesian_sum (fst c1) (fst c2))"
    by (rule topk_row_index_bound)
  then show pb: "p < kn * kn"
    by (simp add: cartesian_sum_length l1 l2)
  have "fst ?best ! t = cartesian_sum (fst c1) (fst c2) ! p"
    using assms(3) lb
    by (simp add: topk_row_fst [of kn "cartesian_sum (fst c1) (fst c2)"] p_def)
  then have "fst (select_row kn kd subkeys q) ! t = cartesian_sum (fst c1) (fst c2) ! p"
    by (simp only: select_row_fst c1_def c2_def)
  also have "\<dots> = fst c1 ! (p div kn) + fst c2 ! (p mod kn)"
    using outer_nth_divmod [of p "fst c1" "fst c2" "\<lambda>a b. a + b"] pb
    by (simp add: cartesian_sum_def l1 l2)
  finally show "fst (select_row kn kd subkeys q) ! t = fst c1 ! (p div kn) + fst c2 ! (p mod kn)" .
  have "snd (select_row kn kd subkeys q) ! t
          = cartesian_index (length (fst subkeys)) (snd c1) (snd c2) ! p"
    using assms(3) lb
    by (simp add: select_row_snd c1_def c2_def p_def)
  also have "\<dots> = snd c1 ! (p div kn) * length (fst subkeys) + snd c2 ! (p mod kn)"
    using outer_nth_divmod [of p "snd c1" "snd c2" "\<lambda>a b. a * length (fst subkeys) + b"] pb
    by (simp add: cartesian_index_def l1 l2)
  finally show "snd (select_row kn kd subkeys q) ! t =
           snd c1 ! (p div kn) * length (fst subkeys) + snd c2 ! (p mod kn)" .
qed


lemma pair_index_div: "j < n \<Longrightarrow> (i * n + j) div n = (i::nat)"
  by simp

lemma pair_index_mod: "j < n \<Longrightarrow> (i * n + j) mod n = (j::nat)"
  by simp

lemma pair_index_inj:
  "inj_on (\<lambda>(i, j). i * n + j) (A \<times> {0..<n::nat})"
proof (rule inj_onI)
  fix x y :: "nat \<times> nat"
  assume x: "x \<in> A \<times> {0..<n}" and y: "y \<in> A \<times> {0..<n}"
    and eq: "(case x of (i, j) \<Rightarrow> i * n + j) = (case y of (i, j) \<Rightarrow> i * n + j)"
  obtain a b where xa: "x = (a, b)" by (cases x)
  obtain c d where yc: "y = (c, d)" by (cases y)
  from x y xa yc have bd: "b < n" "d < n" by auto
  from eq xa yc have e: "a * n + b = c * n + d" by simp
  from e have "(a * n + b) div n = (c * n + d) div n" by simp
  with bd have "a = c" by simp
  moreover from e have "(a * n + b) mod n = (c * n + d) mod n" by simp
  with bd have "b = d" by simp
  ultimately show "x = y" by (simp add: xa yc)
qed

lemma outer_as_product:
  "concat (map (\<lambda>a. map (f a) ys) xs) = map (\<lambda>(a, b). f a b) (List.product xs ys)"
  by (induction xs) auto

lemma cartesian_index_distinct:
  assumes "distinct i1" and "distinct i2" and "\<And>j. j \<in> set i2 \<Longrightarrow> j < n"
  shows "distinct (cartesian_index n i1 i2)"
proof -
  have sub: "set (List.product i1 i2) \<subseteq> set i1 \<times> {0..<n}"
    using assms(3) by auto
  have "inj_on (\<lambda>(i, j). i * n + j) (set (List.product i1 i2))"
    by (rule inj_on_subset [OF pair_index_inj sub])
  moreover have "distinct (List.product i1 i2)"
    using assms(1,2) by (rule distinct_product)
  ultimately have "distinct (map (\<lambda>(i, j). i * n + j) (List.product i1 i2))"
    by (simp add: distinct_map)
  then show ?thesis
    by (simp add: cartesian_index_def outer_as_product)
qed

lemma distinct_map_nth:
  assumes "distinct xs" and "distinct ps" and "\<And>p. p \<in> set ps \<Longrightarrow> p < length xs"
  shows "distinct (map (\<lambda>p. xs ! p) ps)"
proof -
  have "inj_on (\<lambda>p. xs ! p) (set ps)"
  proof (rule inj_onI)
    fix p q assume "p \<in> set ps" "q \<in> set ps" "xs ! p = xs ! q"
    with assms(1,3) show "p = q"
      by (simp add: nth_eq_iff_index_eq)
  qed
  with assms(2) show ?thesis
    by (simp add: distinct_map)
qed

lemma select_row_distinct:
  assumes "kn \<le> length (fst subkeys)" and "kn \<le> length (snd subkeys)"
    and "length (snd subkeys) = length (fst subkeys)"
  shows "distinct (snd (select_row kn kd subkeys q))"
proof -
  let ?c1 = "topk_row kn (half_scores1 kd subkeys q)"
  let ?c2 = "topk_row kn (half_scores2 kd subkeys q)"
  let ?best = "topk_row kn (cartesian_sum (fst ?c1) (fst ?c2))"
  let ?ci = "cartesian_index (length (fst subkeys)) (snd ?c1) (snd ?c2)"
  have b2: "\<And>j. j \<in> set (snd ?c2) \<Longrightarrow> j < length (fst subkeys)"
  proof -
    fix j assume "j \<in> set (snd ?c2)"
    then have "j < length (half_scores2 kd subkeys q)"
      by (rule topk_row_index_bound)
    with assms(3) show "j < length (fst subkeys)"
      by (simp add: half_scores2_def)
  qed
  have d: "distinct ?ci"
    by (rule cartesian_index_distinct [OF topk_row_distinct topk_row_distinct b2])
  have len: "length ?ci = length (cartesian_sum (fst ?c1) (fst ?c2))"
    by (simp add: cartesian_index_length cartesian_sum_length topk_row_length_fst topk_row_length_snd)
  have pb: "\<And>p. p \<in> set (snd ?best) \<Longrightarrow> p < length ?ci"
    unfolding len by (rule topk_row_index_bound)
  have "distinct (map (\<lambda>p. ?ci ! p) (snd ?best))"
    by (rule distinct_map_nth [OF d topk_row_distinct pb])
  then show ?thesis
    by (simp only: select_row_snd)
qed


lemma get_indices_head_nth:
  assumes "get_indices_head kn kd query subkeys = Inr (scores, indices)" and "b < length query"
  shows "scores ! b = fst (select_row kn kd subkeys (query ! b))"
    and "indices ! b = snd (select_row kn kd subkeys (query ! b))"
    and "length scores = length query" and "length indices = length query"
proof -
  from get_indices_head_InrD [OF assms(1)]
  have pre: "list_all (\<lambda>q. length q = kd) query" "query \<noteq> []"
    "kn \<le> length (fst subkeys)" "kn \<le> length (snd subkeys)"
    "list_all (\<lambda>w. length w = kd div 2) (fst subkeys)"
    "list_all (\<lambda>w. length w = kd - kd div 2) (snd subkeys)"
    by simp_all
  from get_indices_head_rows [OF pre] assms(1)
  have s: "scores = map (\<lambda>q. fst (select_row kn kd subkeys q)) query"
    and i: "indices = map (\<lambda>q. snd (select_row kn kd subkeys q)) query"
    by simp_all
  from s assms(2) show "scores ! b = fst (select_row kn kd subkeys (query ! b))" by simp
  from i assms(2) show "indices ! b = snd (select_row kn kd subkeys (query ! b))" by simp
  from s show "length scores = length query" by simp
  from i show "length indices = length query" by simp
qed

text \<open>The assertion \<^verbatim>\<open>scores.shape == indices.shape == (bs, knn)\<close> at the end of
  \<^verbatim>\<open>_get_indices\<close> never fails.\<close>

lemma get_indices_head_shape:
  assumes "get_indices_head kn kd query subkeys = Inr (scores, indices)"
  shows "length scores = length query \<and> length indices = length query \<and>
         list_all (\<lambda>r. length r = kn) scores \<and> list_all (\<lambda>r. length r = kn) indices"
proof -
  from get_indices_head_InrD [OF assms]
  have pre: "list_all (\<lambda>q. length q = kd) query" "query \<noteq> []"
    "kn \<le> length (fst subkeys)" "kn \<le> length (snd subkeys)"
    "list_all (\<lambda>w. length w = kd div 2) (fst subkeys)"
    "list_all (\<lambda>w. length w = kd - kd div 2) (snd subkeys)"
    by simp_all
  from get_indices_head_rows [OF pre] assms
  have s: "scores = map (\<lambda>q. fst (select_row kn kd subkeys q)) query"
    and i: "indices = map (\<lambda>q. snd (select_row kn kd subkeys q)) query"
    by simp_all
  from select_row_lengths [OF pre(3,4)] show ?thesis
    by (simp add: s i list_all_iff)
qed



lemma selector_example:
  "get_indices_head 2 2 [[1, 2], [3, - 1]] ([[1], [0], [2]], [[1], [0], [- 1]])
     = Inr ([[4, 3], [7, 6]], [[6, 0], [8, 7]])"
  by code_simp


text \<open>Claim C5. Every index returned by the selector lies in \<open>[0, n_keys\<^sup>2)\<close>; its
  quotient and remainder by \<open>n_keys\<close> are the positions of a first-half and a second-half
  candidate key, and the returned score is the sum of the two half scores at these
  positions.\<close>

theorem selected_index_in_range:
  fixes kn kd b t :: nat and query scores :: matrix and subkeys :: "matrix \<times> matrix"
    and indices :: "nat list list"
  assumes ret: "get_indices_head kn kd query subkeys = Inr (scores, indices)"
    and shape: "length (snd subkeys) = length (fst subkeys)"
    and b: "b < length query" and t: "t < kn"
  shows "let n_keys = length (fst subkeys);
             r = indices ! b ! t;
             sc1 = half_scores1 kd subkeys (query ! b);
             sc2 = half_scores2 kd subkeys (query ! b)
         in length (indices ! b) = kn \<and>
            r < n_keys ^ 2 \<and> r div n_keys < n_keys \<and> r mod n_keys < n_keys \<and>
            r div n_keys \<in> set (snd (topk_row kn sc1)) \<and>
            r mod n_keys \<in> set (snd (topk_row kn sc2)) \<and>
            scores ! b ! t = sc1 ! (r div n_keys) + sc2 ! (r mod n_keys)"
proof -
  let ?n = "length (fst subkeys)"
  let ?q = "query ! b"
  let ?sc1 = "half_scores1 kd subkeys ?q"
  let ?sc2 = "half_scores2 kd subkeys ?q"
  let ?c1 = "topk_row kn ?sc1"
  let ?c2 = "topk_row kn ?sc2"
  let ?p = "snd (topk_row kn (cartesian_sum (fst ?c1) (fst ?c2))) ! t"
  let ?i = "snd ?c1 ! (?p div kn)"
  let ?j = "snd ?c2 ! (?p mod kn)"
  from get_indices_head_InrD [OF ret]
  have k1: "kn \<le> length (fst subkeys)" and k2: "kn \<le> length (snd subkeys)" by simp_all
  note rows = get_indices_head_nth [OF ret b]
  note sp = select_row_pair [OF k1 k2 t, of kd ?q]
  have l1: "length (snd ?c1) = kn"
    using k1 by (simp add: topk_row_length_snd half_scores1_def)
  have l2: "length (snd ?c2) = kn"
    using k2 by (simp add: topk_row_length_snd half_scores2_def)
  from sp(1) have pos: "0 < kn" by (cases kn) auto
  from sp(1) have pi: "?p div kn < kn" by (simp add: less_mult_imp_div_less)
  from pos have pj: "?p mod kn < kn" by simp
  have mi: "?i \<in> set (snd ?c1)" using pi l1 by simp
  have mj: "?j \<in> set (snd ?c2)" using pj l2 by simp
  from topk_row_index_bound [OF mi] have bi: "?i < ?n" by (simp add: half_scores1_def)
  from topk_row_index_bound [OF mj] shape have bj: "?j < ?n" by (simp add: half_scores2_def)
  have r: "indices ! b ! t = ?i * ?n + ?j"
    using sp(3) by (simp only: rows(2))
  have rdiv: "(indices ! b ! t) div ?n = ?i" unfolding r using bj by (rule pair_index_div)
  have rmod: "(indices ! b ! t) mod ?n = ?j" unfolding r using bj by (rule pair_index_mod)
  have "?i * ?n + ?j < ?i * ?n + ?n" using bj by simp
  also have "\<dots> = Suc ?i * ?n" by simp
  also have "\<dots> \<le> ?n * ?n" using bi by (simp only: Suc_le_eq [symmetric] mult_le_mono1)
  finally have rb: "indices ! b ! t < ?n ^ 2" by (simp add: r power2_eq_square)
  have s: "scores ! b ! t = fst ?c1 ! (?p div kn) + fst ?c2 ! (?p mod kn)"
    using sp(2) by (simp only: rows(1))
  have n1: "fst ?c1 ! (?p div kn) = ?sc1 ! ?i"
    using pi l1 by (simp add: topk_row_fst [of kn ?sc1])
  have n2: "fst ?c2 ! (?p mod kn) = ?sc2 ! ?j"
    using pj l2 by (simp add: topk_row_fst [of kn ?sc2])
  have len: "length (indices ! b) = kn"
    using select_row_lengths(2) [OF k1 k2, of kd ?q] by (simp only: rows(2))
  from len rb bi bj mi mj s n1 n2 show ?thesis
    unfolding Let_def rdiv rmod by simp
qed

theorem selected_index_in_range_witness:
  "get_indices_head 2 2 [[1, 2], [3, - 1]] ([[1], [0], [2]], [[1], [0], [- 1]])
     = Inr ([[4, 3], [7, 6]], [[6, 0], [8, 7]]) \<and>
   length (snd ([[1], [0], [2 :: real]], [[1], [0], [- 1 :: real]]))
     = length (fst ([[1], [0], [2 :: real]], [[1], [0], [- 1 :: real]])) \<and>
   (1::nat) < length [[1, 2], [3, - 1 :: real]] \<and> (0::nat) < 2 \<and>
   [[6, 0], [8, 7 :: nat]] ! 1 ! 0 < 3 ^ 2 \<and>
   [[4, 3], [7, 6 :: real]] ! 1 ! 0
     = half_scores1 2 ([[1], [0], [2]], [[1], [0], [- 1]]) [3, - 1] ! 2
       + half_scores2 2 ([[1], [0], [2]], [[1], [0], [- 1]]) [3, - 1] ! 2"
proof -
  let ?Q = "[[1, 2], [3, - 1 :: real]]"
  let ?K = "([[1], [0], [2 :: real]], [[1], [0], [- 1 :: real]])"
  have h1: "get_indices_head 2 2 ?Q ?K = Inr ([[4, 3], [7, 6]], [[6, 0], [8, 7]])"
    by (rule selector_example)
  have h2: "length (snd ?K) = length (fst ?K)" by simp
  have h3: "(1::nat) < length ?Q" by simp
  have h4: "(0::nat) < 2" by simp
  from selected_index_in_range [OF h1 h2 h3 h4] h1 h2 h3 h4 show ?thesis
    by (simp add: Let_def)
qed

text \<open>Claim C10. Within one head and one query the \<open>knn\<close> returned indices are pairwise
  distinct: each per-half candidate list has distinct positions and the pairing
  \<open>(i1, i2) \<mapsto> i1 * n_keys + i2\<close> is injective on \<open>[0, n_keys) \<times> [0, n_keys)\<close>.\<close>

theorem selected_indices_distinct:
  fixes kn kd b :: nat and query scores :: matrix and subkeys :: "matrix \<times> matrix"
    and indices :: "nat list list"
  assumes ret: "get_indices_head kn kd query subkeys = Inr (scores, indices)"
    and shape: "length (snd subkeys) = length (fst subkeys)"
    and b: "b < length query"
  shows "distinct (indices ! b) \<and> length (indices ! b) = kn \<and>
         distinct (snd (topk_row kn (half_scores1 kd subkeys (query ! b)))) \<and>
         distinct (snd (topk_row kn (half_scores2 kd subkeys (query ! b)))) \<and>
         inj_on (\<lambda>(i1, i2). i1 * length (fst subkeys) + i2)
           ({0..<length (fst subkeys)} \<times> {0..<length (fst subkeys)})"
proof -
  from get_indices_head_InrD [OF ret]
  have k1: "kn \<le> length (fst subkeys)" and k2: "kn \<le> length (snd subkeys)" by simp_all
  note rows = get_indices_head_nth [OF ret b]
  have "distinct (snd (select_row kn kd subkeys (query ! b)))"
    by (rule select_row_distinct [OF k1 k2 shape])
  then have d: "distinct (indices ! b)" by (simp only: rows(2))
  have len: "length (indices ! b) = kn"
    using select_row_lengths(2) [OF k1 k2, of kd "query ! b"] by (simp only: rows(2))
  from d len topk_row_distinct pair_index_inj show ?thesis
    by blast
qed

theorem selected_indices_distinct_witness:
  "get_indices_head 2 2 [[1, 2], [3, - 1]] ([[1], [0], [2]], [[1], [0], [- 1]])
     = Inr ([[4, 3], [7, 6]], [[6, 0], [8, 7]]) \<and>
   length (snd ([[1], [0], [2 :: real]], [[1], [0], [- 1 :: real]]))
     = length (fst ([[1], [0], [2 :: real]], [[1], [0], [- 1 :: real]])) \<and>
   (0::nat) < length [[1, 2], [3, - 1 :: real]] \<and>
   distinct ([[6, 0], [8, 7 :: nat]] ! 0)"
proof -
  let ?Q = "[[1, 2], [3, - 1 :: real]]"
  let ?K = "([[1], [0], [2 :: real]], [[1], [0], [- 1 :: real]])"
  have h1: "get_indices_head 2 2 ?Q ?K = Inr ([[4, 3], [7, 6]], [[6, 0], [8, 7]])"
    by (rule selector_example)
  have h2: "length (snd ?K) = length (fst ?K)" by simp
  have h3: "(0::nat) < length ?Q" by simp
  from selected_indices_distinct [OF h1 h2 h3] h1 h2 h3 show ?thesis
    by simp
qed

subsection \<open>The uniform key generator\<close>

lemma sequence_err_map_Inr:
  "(\<And>x. x \<in> set xs \<Longrightarrow> f x = Inr (g x)) \<Longrightarrow> sequence_err (map f xs) = Inr (map g xs)"
  by (induction xs) auto

lemma sequence_err_InrD:
  "sequence_err rs = Inr vs \<Longrightarrow> rs = map Inr vs"
proof (induction rs arbitrary: vs)
  case Nil
  then show ?case by simp
next
  case (Cons r rs)
  then show ?case
    by (cases r; cases "sequence_err rs") auto
qed

lemma sequence_err_first_Inl:
  "sequence_err (Inl e # rs) = Inl e"
  by simp

lemma get_uniform_keys_Inr:
  assumes "seed < 2 ^ 32" and "0 < dm"
  shows "get_uniform_keys rs nk dm seed =
           Inr (map (\<lambda>r. map (\<lambda>c. astype_float32 (- (1 / sqrt (real dm))
                      + (1 / sqrt (real dm) - (- (1 / sqrt (real dm)))) * rs seed (r * dm + c))) [0..<dm])
                  [0..<nk])"
  using assms
  by (simp add: get_uniform_keys_def RandomState_def uniform_def Let_def comp_def)

lemma get_uniform_keys_InrD:
  assumes "get_uniform_keys rs nk dm seed = Inr ks"
  shows "seed < 2 ^ 32 \<and> 0 < dm"
  using assms
  by (auto simp: get_uniform_keys_def RandomState_def split: if_splits)

lemma get_uniform_keys_shape:
  assumes "get_uniform_keys rs nk dm seed = Inr ks"
  shows "length ks = nk" and "list_all (\<lambda>r. length r = dm) ks"
proof -
  from get_uniform_keys_InrD [OF assms] have "seed < 2 ^ 32" "0 < dm" by simp_all
  from get_uniform_keys_Inr [OF this, of rs nk] assms
  have ks: "ks = map (\<lambda>r. map (\<lambda>c. astype_float32 (- (1 / sqrt (real dm))
                      + (1 / sqrt (real dm) - (- (1 / sqrt (real dm)))) * rs seed (r * dm + c))) [0..<dm])
                  [0..<nk]"
    by simp
  show "length ks = nk" by (simp add: ks)
  show "list_all (\<lambda>r. length r = dm) ks" by (simp add: ks list_all_iff)
qed
















lemma seed7_stream_unit: "\<forall>s i. 0 \<le> seed7_stream s i \<and> seed7_stream s i < 1"
  by (simp add: seed7_stream_def)



subsection \<open>Construction of the module\<close>

lemma seeds_upt: "concat (map (\<lambda>i. map (\<lambda>j. 2 * i + j) [0..<2]) [0..<hs]) = [0..<2 * hs]"
proof (induction hs)
  case 0
  then show ?case by simp
next
  case (Suc hs)
  have "[0..<2] = [0, Suc 0]" by (simp add: upt_rec)
  with Suc show ?case by simp
qed

lemma initialize_keys_Inr:
  assumes "2 * hs \<le> 2 ^ 32" and "2 \<le> kd"
  shows "\<exists>ks. initialize_keys rs hs nk kd = Inr ks \<and> length ks = hs \<and>
           (\<forall>h<hs. get_uniform_keys rs nk (kd div 2) (2 * h) = Inr (fst (ks ! h)) \<and>
                    get_uniform_keys rs nk (kd div 2) (2 * h + 1) = Inr (snd (ks ! h)))"
proof -
  let ?b = "1 / sqrt (real (kd div 2))"
  let ?g = "\<lambda>s. map (\<lambda>r. map (\<lambda>c. astype_float32 (- ?b + (?b - (- ?b)) * rs s (r * (kd div 2) + c))) [0..<kd div 2]) [0..<nk]"
  from assms(2) have half: "0 < kd div 2" by simp
  have each: "get_uniform_keys rs nk (kd div 2) s = Inr (?g s)" if "s \<in> set [0..<2 * hs]" for s
  proof -
    from that assms(1) have "s < 2 ^ 32" by simp
    from get_uniform_keys_Inr [OF this half] show ?thesis .
  qed
  have seq: "sequence_err (map (\<lambda>s. get_uniform_keys rs nk (kd div 2) s) [0..<2 * hs])
               = Inr (map ?g [0..<2 * hs])"
    by (rule sequence_err_map_Inr) (rule each)
  let ?ks = "map (\<lambda>h. (map ?g [0..<2 * hs] ! (2 * h), map ?g [0..<2 * hs] ! (2 * h + 1))) [0..<hs]"
  have ret: "initialize_keys rs hs nk kd = Inr ?ks"
    unfolding initialize_keys_def Let_def seeds_upt seq bind_err_Inr ..
  have "get_uniform_keys rs nk (kd div 2) (2 * h) = Inr (fst (?ks ! h)) \<and>
        get_uniform_keys rs nk (kd div 2) (2 * h + 1) = Inr (snd (?ks ! h))" if h: "h < hs" for h
  proof -
    from h have i0: "2 * h < 2 * hs" and i1: "2 * h + 1 < 2 * hs" by simp_all
    from h i0 have f: "fst (?ks ! h) = ?g (2 * h)" by simp
    from h i1 have s: "snd (?ks ! h) = ?g (2 * h + 1)" by simp
    from i0 have "2 * h \<in> set [0..<2 * hs]" by simp
    from each [OF this] have a: "get_uniform_keys rs nk (kd div 2) (2 * h) = Inr (fst (?ks ! h))"
      by (simp only: f)
    from i1 have "2 * h + 1 \<in> set [0..<2 * hs]" by simp
    from each [OF this] have b: "get_uniform_keys rs nk (kd div 2) (2 * h + 1) = Inr (snd (?ks ! h))"
      by (simp only: s)
    from a b show ?thesis ..
  qed
  moreover have "length ?ks = hs" by simp
  ultimately show ?thesis using ret by blast
qed

lemma initialize_keys_InrD:
  assumes "initialize_keys rs hs nk kd = Inr ks"
  shows "length ks = hs"
    and "\<And>h. h < hs \<Longrightarrow> get_uniform_keys rs nk (kd div 2) (2 * h) = Inr (fst (ks ! h)) \<and>
                    get_uniform_keys rs nk (kd div 2) (2 * h + 1) = Inr (snd (ks ! h))"
proof -
  obtain vs where seq: "sequence_err (map (\<lambda>s. get_uniform_keys rs nk (kd div 2) s) [0..<2 * hs]) = Inr vs"
    and ks: "ks = map (\<lambda>h. (vs ! (2 * h), vs ! (2 * h + 1))) [0..<hs]"
    using assms
    by (cases "sequence_err (map (\<lambda>s. get_uniform_keys rs nk (kd div 2) s) [0..<2 * hs])")
       (auto simp: initialize_keys_def Let_def seeds_upt)
  from sequence_err_InrD [OF seq]
  have m: "map (\<lambda>s. get_uniform_keys rs nk (kd div 2) s) [0..<2 * hs] = map Inr vs" .
  then have len: "length vs = 2 * hs"
    by (metis length_map length_upt diff_zero)
  show "length ks = hs" by (simp add: ks)
  fix h assume h: "h < hs"
  have nth: "get_uniform_keys rs nk (kd div 2) s = Inr (vs ! s)" if "s < 2 * hs" for s
  proof -
    from that have "get_uniform_keys rs nk (kd div 2) s
        = map (\<lambda>s. get_uniform_keys rs nk (kd div 2) s) [0..<2 * hs] ! s" by simp
    also have "\<dots> = map Inr vs ! s" by (simp only: m)
    also from that len have "\<dots> = Inr (vs ! s)" by simp
    finally show ?thesis .
  qed
  from h have "2 * h < 2 * hs" "2 * h + 1 < 2 * hs" by simp_all
  with nth h show "get_uniform_keys rs nk (kd div 2) (2 * h) = Inr (fst (ks ! h)) \<and>
                    get_uniform_keys rs nk (kd div 2) (2 * h + 1) = Inr (snd (ks ! h))"
    by (simp add: ks)
qed

lemma initialize_keys_wf:
  assumes "initialize_keys rs hs nk kd = Inr ks"
  shows "wf_keys hs nk (kd div 2) ks"
proof -
  note d = initialize_keys_InrD [OF assms]
  have "length (fst sk) = nk \<and> length (snd sk) = nk \<and>
        list_all (\<lambda>r. length r = kd div 2) (fst sk) \<and> list_all (\<lambda>r. length r = kd div 2) (snd sk)"
    if "sk \<in> set ks" for sk
  proof -
    from that obtain h where h: "h < length ks" and sk: "sk = ks ! h"
      by (auto simp: in_set_conv_nth)
    from h d(1) have "h < hs" by simp
    from d(2) [OF this] sk
    have a: "get_uniform_keys rs nk (kd div 2) (2 * h) = Inr (fst sk)"
      and b: "get_uniform_keys rs nk (kd div 2) (2 * h + 1) = Inr (snd sk)" by simp_all
    from get_uniform_keys_shape [OF a] get_uniform_keys_shape [OF b] show ?thesis by simp
  qed
  with d(1) show ?thesis
    by (simp add: wf_keys_def list_all_iff)
qed

lemma init_InrD:
  assumes "init rs lib idim odim p = Inr m"
  shows "2 \<le> k_dim p" and "k_dim p mod 2 = 0" and "0 < odim"
    and "initialize_keys rs (heads p) (n_keys p) (k_dim p) = Inr (keys m)"
    and "k_dim m = k_dim p" and "heads m = heads p" and "knn m = knn p" and "n_keys m = n_keys p"
    and "input_dim m = idim" and "output_dim m = odim" and "v_dim m = odim"
    and "mem_size m = n_keys p ^ 2"
    and "input_dropout m = input_dropout p" and "query_dropout m = query_dropout p"
    and "value_dropout m = value_dropout p"
  using assms
  by (cases "initialize_keys rs (heads p) (n_keys p) (k_dim p)";
      auto simp: init_def Let_def params.defs split: if_splits)+


lemma wf_keysD:
  assumes "wf_keys hs nk half ks" and "h < hs"
  shows "length ks = hs" and "length (fst (ks ! h)) = nk" and "length (snd (ks ! h)) = nk"
    and "list_all (\<lambda>r. length r = half) (fst (ks ! h))"
    and "list_all (\<lambda>r. length r = half) (snd (ks ! h))"
proof -
  from assms(1) show l: "length ks = hs" by (simp add: wf_keys_def)
  with assms(2) have "ks ! h \<in> set ks" by simp
  with assms(1) have "length (fst (ks ! h)) = nk \<and> length (snd (ks ! h)) = nk \<and>
      list_all (\<lambda>r. length r = half) (fst (ks ! h)) \<and> list_all (\<lambda>r. length r = half) (snd (ks ! h))"
    unfolding wf_keys_def list_all_iff by blast
  then show "length (fst (ks ! h)) = nk" and "length (snd (ks ! h)) = nk"
    and "list_all (\<lambda>r. length r = half) (fst (ks ! h))"
    and "list_all (\<lambda>r. length r = half) (snd (ks ! h))" by simp_all
qed

lemma init_Inr:
  assumes "2 \<le> k_dim p" and "k_dim p mod 2 = 0" and "2 * heads p \<le> 2 ^ 32" and "0 < odim"
  shows "\<exists>m. init rs lib idim odim p = Inr m"
proof -
  from initialize_keys_Inr [OF assms(3,1), of rs "n_keys p"]
  obtain ks where "initialize_keys rs (heads p) (n_keys p) (k_dim p) = Inr ks" by blast
  with assms(1,2,4) show ?thesis by (simp add: init_def Let_def)
qed

text \<open>Claim C6. For an even \<open>k_dim \<ge> 2\<close> (and seeds \<open>2 h + j\<close> that the generator accepts),
  \<^verbatim>\<open>initialize_keys\<close> returns the key tensor that every constructed module holds: it has
  one pair of sub-key sets per head, the set of head \<open>h\<close> and half \<open>j\<close> is the output
  of \<^verbatim>\<open>get_uniform_keys\<close> with seed \<open>2 h + j\<close> and dimension \<open>k_dim // 2\<close>, and each set
  has \<open>n_keys\<close> vectors of that dimension: the shape is
  \<open>(heads, 2, n_keys, k_dim // 2)\<close>. Construction succeeds when moreover
  \<open>input_dim > 0\<close> and \<open>output_dim > 0\<close>.\<close>

theorem key_store_construction:
  fixes rs :: "nat \<Rightarrow> nat \<Rightarrow> real" and lib :: torch_init and idim odim :: nat and p :: params
  assumes kd: "2 \<le> k_dim p" and ev: "k_dim p mod 2 = 0" and seeds: "2 * heads p \<le> 2 ^ 32"
  shows "\<exists>ks. initialize_keys rs (heads p) (n_keys p) (k_dim p) = Inr ks \<and>
           (\<forall>m. init rs lib idim odim p = Inr m \<longrightarrow> keys m = ks) \<and>
           (0 < idim \<and> 0 < odim \<longrightarrow> (\<exists>m. init rs lib idim odim p = Inr m)) \<and>
           length ks = heads p \<and>
           (\<forall>h<heads p.
              get_uniform_keys rs (n_keys p) (k_dim p div 2) (2 * h) = Inr (fst (ks ! h)) \<and>
              get_uniform_keys rs (n_keys p) (k_dim p div 2) (2 * h + 1) = Inr (snd (ks ! h)) \<and>
              length (fst (ks ! h)) = n_keys p \<and> length (snd (ks ! h)) = n_keys p \<and>
              list_all (\<lambda>r. length r = k_dim p div 2) (fst (ks ! h)) \<and>
              list_all (\<lambda>r. length r = k_dim p div 2) (snd (ks ! h)))"
proof -
  from initialize_keys_Inr [OF seeds kd, of rs "n_keys p"]
  obtain ks where ret: "initialize_keys rs (heads p) (n_keys p) (k_dim p) = Inr ks"
    and len: "length ks = heads p"
    and gen: "\<forall>h<heads p.
              get_uniform_keys rs (n_keys p) (k_dim p div 2) (2 * h) = Inr (fst (ks ! h)) \<and>
              get_uniform_keys rs (n_keys p) (k_dim p div 2) (2 * h + 1) = Inr (snd (ks ! h))"
    by blast
  have same: "\<forall>m. init rs lib idim odim p = Inr m \<longrightarrow> keys m = ks"
  proof (intro allI impI)
    fix m assume "init rs lib idim odim p = Inr m"
    from init_InrD(4) [OF this] ret show "keys m = ks" by simp
  qed
  have built: "0 < idim \<and> 0 < odim \<longrightarrow> (\<exists>m. init rs lib idim odim p = Inr m)"
    using init_Inr [OF kd ev seeds] by blast
  note wf = initialize_keys_wf [OF ret]
  have shp: "length (fst (ks ! h)) = n_keys p \<and> length (snd (ks ! h)) = n_keys p \<and>
              list_all (\<lambda>r. length r = k_dim p div 2) (fst (ks ! h)) \<and>
              list_all (\<lambda>r. length r = k_dim p div 2) (snd (ks ! h))" if "h < heads p" for h
    using wf_keysD(2-5) [OF wf that] by simp
  from ret same built len gen shp show ?thesis by blast
qed

text \<open>Two heads, two keys per half, \<open>k_dim = 2\<close>.\<close>

theorem key_store_construction_witness:
  "(2::nat) \<le> k_dim \<lparr> sparse = False, k_dim = 2, heads = 2, knn = 1, n_keys = 2,
        query_batchnorm = False, input_dropout = 0, query_dropout = 0, value_dropout = 0 \<rparr> \<and>
   k_dim \<lparr> sparse = False, k_dim = 2, heads = 2, knn = 1, n_keys = 2,
        query_batchnorm = False, input_dropout = 0, query_dropout = 0, value_dropout = 0 \<rparr> mod 2 = 0 \<and>
   2 * heads \<lparr> sparse = False, k_dim = 2, heads = 2, knn = 1, n_keys = 2,
        query_batchnorm = False, input_dropout = 0, query_dropout = 0, value_dropout = 0 \<rparr> \<le> 2 ^ 32 \<and>
   (\<exists>ks. initialize_keys example_stream 2 2 2 = Inr ks \<and> length ks = 2 \<and>
      get_uniform_keys example_stream 2 1 3 = Inr (snd (ks ! 1)) \<and> length (snd (ks ! 1)) = 2)"
proof -
  let ?p = "\<lparr> sparse = False, k_dim = 2, heads = 2, knn = 1, n_keys = 2,
        query_batchnorm = False, input_dropout = 0, query_dropout = 0, value_dropout = 0 \<rparr>"
  have h1: "2 \<le> k_dim ?p" by simp
  have h2: "k_dim ?p mod 2 = 0" by simp
  have h3: "2 * heads ?p \<le> 2 ^ 32" by simp
  from key_store_construction [OF h1 h2 h3, of example_stream]
  obtain ks where r: "initialize_keys example_stream (heads ?p) (n_keys ?p) (k_dim ?p) = Inr ks"
    and l: "length ks = heads ?p"
    and g: "\<forall>h<heads ?p.
              get_uniform_keys example_stream (n_keys ?p) (k_dim ?p div 2) (2 * h) = Inr (fst (ks ! h)) \<and>
              get_uniform_keys example_stream (n_keys ?p) (k_dim ?p div 2) (2 * h + 1) = Inr (snd (ks ! h)) \<and>
              length (fst (ks ! h)) = n_keys ?p \<and> length (snd (ks ! h)) = n_keys ?p \<and>
              list_all (\<lambda>r. length r = k_dim ?p div 2) (fst (ks ! h)) \<and>
              list_all (\<lambda>r. length r = k_dim ?p div 2) (snd (ks ! h))"
    by blast
  have "1 < heads ?p" by simp
  with g have "get_uniform_keys example_stream (n_keys ?p) (k_dim ?p div 2) (2 * 1 + 1) = Inr (snd (ks ! 1)) \<and>
     length (snd (ks ! 1)) = n_keys ?p" by blast
  with r l h1 h2 h3 show ?thesis by simp
qed

lemma init_wf:
  assumes "init rs lib idim odim p = Inr m"
  shows "wf_memory m"
proof -
  note d = init_InrD [OF assms]
  from initialize_keys_wf [OF d(4)] d(5-8)
  have k: "wf_keys (heads m) (n_keys m) (k_dim m div 2) (keys m)" by simp
  from assms have m: "values_weight m =
        map (\<lambda>r. map (\<lambda>c. 1 / sqrt (real odim) * normal_draw lib r c) [0..<odim]) [0..<n_keys p ^ 2]"
    "proj_weight m = map (\<lambda>r. map (\<lambda>c. linear_weight_draw lib r c) [0..<idim]) [0..<heads p * k_dim p]"
    "proj_bias m = map (\<lambda>r. linear_bias_draw lib r) [0..<heads p * k_dim p]"
    "wf_batchnorm (heads p * k_dim p) (proj_bn m)"
    by (cases "initialize_keys rs (heads p) (n_keys p) (k_dim p)";
        auto simp: init_def Let_def params.defs wf_batchnorm_def split: if_splits)+
  from k d(1-3) d(5-12) m show ?thesis
    by (simp add: wf_memory_def list_all_iff)
qed

lemma get_indices_fails:
  assumes wf: "wf_keys (heads m) nk half (keys m)" and big: "nk < knn m"
  shows "\<exists>e. get_indices m q = Inl e"
proof (cases "list_all (\<lambda>r. length r = k_dim m) q")
  case False
  then show ?thesis by (simp add: get_indices_def)
next
  case asrt: True
  show ?thesis
  proof (cases "view3 (heads m) (k_dim m) q")
    case (Inl e)
    with asrt show ?thesis by (simp add: get_indices_def)
  next
    case (Inr q3)
    then have "heads m * k_dim m \<noteq> 0"
      by (auto simp: view3_def split: if_splits)
    then have hpos: "0 < heads m" by simp
    let ?f = "\<lambda>i. if i < length (keys m)
                 then get_indices_head (knn m) (k_dim m) (map (\<lambda>r. r ! i) q3) (keys m ! i)
                 else Inl IndexError"
    have "\<exists>e. ?f 0 = Inl e"
    proof (cases "?f 0")
      case (Inl e)
      then show ?thesis by blast
    next
      case (Inr r)
      from wf hpos have l0: "0 < length (keys m)" by (simp add: wf_keys_def)
      with Inr have "get_indices_head (knn m) (k_dim m) (map (\<lambda>r. r ! 0) q3) (keys m ! 0) = Inr r"
        by simp
      from get_indices_head_InrD [OF this] have "knn m \<le> length (fst (keys m ! 0))" by simp
      with wf_keysD(2) [OF wf hpos] big show ?thesis by simp
    qed
    then obtain e where e: "?f 0 = Inl e" ..
    from hpos have "[0..<heads m] = 0 # [Suc 0..<heads m]" by (simp add: upt_conv_Cons)
    then have "sequence_err (map ?f [0..<heads m]) = Inl e"
      using e by (simp del: upt_Suc)
    with asrt Inr show ?thesis
      by (simp add: get_indices_def Let_def)
  qed
qed

lemma forward_fails_of_get_indices:
  assumes "\<And>q. \<exists>e. get_indices m q = Inl e"
  shows "\<exists>e. forward m masks x = Inl e"
proof (cases "forward_query m masks x")
  case (Inl e)
  then show ?thesis by (simp add: forward_def forward_select_def)
next
  case (Inr q)
  from assms obtain e where "get_indices m q = Inl e" by blast
  with Inr show ?thesis by (simp add: forward_def forward_select_def)
qed

text \<open>Claim C8. An odd \<open>k_dim\<close> or \<open>k_dim < 2\<close> makes \<^verbatim>\<open>__init__\<close> fail with its
  assertion, before anything is built. With \<open>knn > n_keys\<close> construction is not checked,
  but every read of the constructed module, in either mode and on every input, ends in an
  exception: the result is an error value and never a tensor.\<close>

theorem invalid_configuration_fails:
  fixes rs :: "nat \<Rightarrow> nat \<Rightarrow> real" and lib :: torch_init and idim odim :: nat and p :: params
    and m :: memory and tr :: bool and masks :: dropout_masks and x :: tensor
  shows "(\<not> (2 \<le> k_dim p \<and> k_dim p mod 2 = 0) \<longrightarrow> init rs lib idim odim p = Inl AssertionError) \<and>
         (init rs lib idim odim p = Inr m \<and> n_keys p < knn p \<longrightarrow>
            (\<exists>e. forward (m\<lparr>training := tr\<rparr>) masks x = Inl e))"
proof (intro conjI impI)
  assume "\<not> (2 \<le> k_dim p \<and> k_dim p mod 2 = 0)"
  then show "init rs lib idim odim p = Inl AssertionError"
    by (simp add: init_def)
next
  assume a: "init rs lib idim odim p = Inr m \<and> n_keys p < knn p"
  then have i: "init rs lib idim odim p = Inr m" and big: "n_keys p < knn p" by simp_all
  note d = init_InrD [OF i]
  let ?m = "m\<lparr>training := tr\<rparr>"
  from initialize_keys_wf [OF d(4)] d(6)
  have wf: "wf_keys (heads ?m) (n_keys p) (k_dim p div 2) (keys ?m)" by simp
  from big d(7) have "n_keys p < knn ?m" by simp
  from get_indices_fails [OF wf this] have "\<And>q. \<exists>e. get_indices ?m q = Inl e" .
  then show "\<exists>e. forward ?m masks x = Inl e"
    by (rule forward_fails_of_get_indices)
qed


text \<open>\<open>k_dim = 3\<close> at construction, and \<open>knn = 3\<close> with two keys per half at the first read.\<close>

theorem invalid_configuration_fails_witness:
  "init example_stream example_init 1 1
      \<lparr> sparse = False, k_dim = 3, heads = 1, knn = 1, n_keys = 2, query_batchnorm = False,
        input_dropout = 0, query_dropout = 0, value_dropout = 0 \<rparr> = Inl AssertionError \<and>
   (\<exists>m. init example_stream example_init 1 1
           \<lparr> sparse = False, k_dim = 2, heads = 1, knn = 3, n_keys = 2, query_batchnorm = False,
             input_dropout = 0, query_dropout = 0, value_dropout = 0 \<rparr> = Inr m \<and>
        (\<exists>e. forward (m\<lparr>training := False\<rparr>) example_masks \<lparr> shape = [1, 1], data = [1] \<rparr> = Inl e))"
proof -
  let ?p1 = "\<lparr> sparse = False, k_dim = 3, heads = 1, knn = 1, n_keys = 2, query_batchnorm = False,
        input_dropout = 0, query_dropout = 0, value_dropout = 0 \<rparr>"
  let ?p2 = "\<lparr> sparse = False, k_dim = 2, heads = 1, knn = 3, n_keys = 2, query_batchnorm = False,
        input_dropout = 0, query_dropout = 0, value_dropout = 0 \<rparr>"
  let ?x = "\<lparr> shape = [1, 1], data = [1] \<rparr>"
  have h1: "\<not> (2 \<le> k_dim ?p1 \<and> k_dim ?p1 mod 2 = 0)" by simp
  from invalid_configuration_fails [of ?p1 example_stream example_init 1 1] h1
  have a: "init example_stream example_init 1 1 ?p1 = Inl AssertionError" by blast
  have "\<exists>m. init example_stream example_init 1 1 ?p2 = Inr m"
    by (rule init_Inr) simp_all
  then obtain m where m: "init example_stream example_init 1 1 ?p2 = Inr m" ..
  have h2: "n_keys ?p2 < knn ?p2" by simp
  from invalid_configuration_fails [of ?p2 example_stream example_init 1 1 m False example_masks ?x] m h2
  have "\<exists>e. forward (m\<lparr>training := False\<rparr>) example_masks ?x = Inl e" by blast
  with a m show ?thesis by blast
qed

subsection \<open>Dropout in evaluation mode\<close>

lemma dropout_eval: "0 \<le> p \<Longrightarrow> p \<le> 1 \<Longrightarrow> dropout p False keep = Inr"
  by (simp add: dropout_def fun_eq_iff)

lemma dropout2_eval: "0 \<le> p \<Longrightarrow> p \<le> 1 \<Longrightarrow> dropout2 p False keep = Inr"
  by (simp add: dropout2_def fun_eq_iff)

lemma get_indices_dropout_rates:
  "get_indices (m\<lparr>input_dropout := a, query_dropout := b, value_dropout := c\<rparr>) q = get_indices m q"
  by (simp add: get_indices_def cong: if_cong)

lemma query_proj_dropout_rates:
  "query_proj (m\<lparr>input_dropout := a, query_dropout := b, value_dropout := c\<rparr>) x = query_proj m x"
  by (simp add: query_proj_def cong: option.case_cong)

lemma forward_query_eval:
  assumes "\<not> training m" and "0 \<le> input_dropout m" and "input_dropout m \<le> 1"
    and "0 \<le> query_dropout m" and "query_dropout m \<le> 1"
  shows "forward_query m masks x =
         forward_query (m\<lparr>input_dropout := 0, query_dropout := 0, value_dropout := 0\<rparr>) masks' x"
  using assms
  by (simp add: forward_query_def dropout_eval dropout2_eval query_proj_dropout_rates Let_def
      cong: if_cong)

lemma forward_select_eval:
  assumes "\<not> training m" and "0 \<le> input_dropout m" and "input_dropout m \<le> 1"
    and "0 \<le> query_dropout m" and "query_dropout m \<le> 1"
  shows "forward_select m masks x =
         forward_select (m\<lparr>input_dropout := 0, query_dropout := 0, value_dropout := 0\<rparr>) masks' x"
  unfolding forward_select_def forward_query_eval [OF assms, of masks x masks'] get_indices_dropout_rates
  by simp

text \<open>Claim C9. In evaluation mode, for dropout rates that are probabilities (the library
  rejects any other rate in both modes), \<^verbatim>\<open>forward\<close> gives the same result, a tensor or an
  exception, as the module with all three rates set to 0, whatever the random masks: every
  dropout stage is the identity.\<close>

theorem eval_mode_dropout_identity:
  fixes m :: memory and masks masks' :: dropout_masks and x :: tensor
  assumes ev: "\<not> training m"
    and i: "0 \<le> input_dropout m" "input_dropout m \<le> 1"
    and q: "0 \<le> query_dropout m" "query_dropout m \<le> 1"
    and v: "0 \<le> value_dropout m" "value_dropout m \<le> 1"
  shows "forward m masks x =
         forward (m\<lparr>input_dropout := 0, query_dropout := 0, value_dropout := 0\<rparr>) masks' x"
  unfolding forward_def forward_select_eval [OF ev i q, of masks x masks']
  using ev v by (simp add: dropout2_eval cong: if_cong)

text \<open>The read of the example module on one input, stage by stage. Both heads select row 0
  of the table, each with weight 1.\<close>

lemma example_forward_query:
  "forward_query example_memory example_masks \<lparr> shape = [1, 1], data = [1] \<rparr> = Inr [[1, 1], [1, 1]]"
  by (simp add: forward_query_def example_memory_def example_masks_def dropout_def dropout2_def
      view_rows_def view2_def query_proj_def nn_linear_def dot_def upt_rec)

lemma example_get_indices:
  "get_indices example_memory [[1, 1], [1, 1]] = Inr ([[2], [2]], [[0], [0]])"
  by (simp add: get_indices_def example_memory_def view3_def upt_rec get_indices_head_def
      topk_def topk_row_def linear_def dot_def cartesian_sum_def cartesian_index_def gather_def)

lemma example_forward_select:
  "forward_select example_memory example_masks \<lparr> shape = [1, 1], data = [1] \<rparr>
     = Inr ([[0, 0]], [[1, 1]])"
  unfolding forward_select_def example_forward_query bind_err_Inr example_get_indices
  by (simp add: softmax_def view2_def example_memory_def upt_rec)

lemma example_forward:
  "forward example_memory example_masks \<lparr> shape = [1, 1], data = [1] \<rparr>
     = Inr \<lparr> shape = [1, 1], data = [2] \<rparr>"
  unfolding forward_def example_forward_select bind_err_Inr
  by (simp add: embedding_bag_def bag_sum_def dropout2_def example_memory_def)

text \<open>The example module has the rates 1/2, 1/4 and 1/10 and is in evaluation mode.\<close>

theorem eval_mode_dropout_identity_witness:
  "\<not> training example_memory \<and>
   0 \<le> input_dropout example_memory \<and> input_dropout example_memory \<le> 1 \<and>
   0 \<le> query_dropout example_memory \<and> query_dropout example_memory \<le> 1 \<and>
   0 \<le> value_dropout example_memory \<and> value_dropout example_memory \<le> 1 \<and>
   input_dropout example_memory \<noteq> 0 \<and> query_dropout example_memory \<noteq> 0 \<and>
   value_dropout example_memory \<noteq> 0 \<and>
   forward example_memory example_masks \<lparr> shape = [1, 1], data = [1] \<rparr>
     = Inr \<lparr> shape = [1, 1], data = [2] \<rparr> \<and>
   forward example_memory example_masks \<lparr> shape = [1, 1], data = [1] \<rparr> =
     forward (example_memory\<lparr>input_dropout := 0, query_dropout := 0, value_dropout := 0\<rparr>)
       \<lparr> input_mask = (\<lambda>i. False), query_mask = (\<lambda>r c. False), value_mask = (\<lambda>r c. False) \<rparr>
       \<lparr> shape = [1, 1], data = [1] \<rparr>"
proof -
  have h: "\<not> training example_memory"
    "0 \<le> input_dropout example_memory" "input_dropout example_memory \<le> 1"
    "0 \<le> query_dropout example_memory" "query_dropout example_memory \<le> 1"
    "0 \<le> value_dropout example_memory" "value_dropout example_memory \<le> 1"
    by (simp_all add: example_memory_def)
  have nz: "input_dropout example_memory \<noteq> 0" "query_dropout example_memory \<noteq> 0"
    "value_dropout example_memory \<noteq> 0"
    by (simp_all add: example_memory_def)
  from eval_mode_dropout_identity [OF h] h nz example_forward show ?thesis by blast
qed

subsection \<open>All heads, softmax weights and the weighted sum of values\<close>

lemma concat_uniform_length:
  "list_all (\<lambda>r. length r = c) x \<Longrightarrow> length (concat x) = length x * c"
  by (induction x) auto

lemma concat_uniform_slice:
  "list_all (\<lambda>r. length r = c) x \<Longrightarrow> i < length x \<Longrightarrow> take c (drop (i * c) (concat x)) = x ! i"
proof (induction x arbitrary: i)
  case Nil
  then show ?case by simp
next
  case (Cons r x)
  show ?case
  proof (cases i)
    case 0
    with Cons.prems show ?thesis by simp
  next
    case (Suc j)
    with Cons.prems have "j < length x" and "list_all (\<lambda>r. length r = c) x" and "length r = c"
      by simp_all
    with Cons.IH [of j] Suc show ?thesis by simp
  qed
qed

lemma concat_map_upt_blocks:
  "concat (map (\<lambda>b. map (\<lambda>h. F (b * n + h)) [0..<n]) [0..<B]) = map F [0..<B * n]"
proof (induction B)
  case 0
  then show ?case by simp
next
  case (Suc B)
  have "map F [B * n..<B * n + n] = map (\<lambda>h. F (B * n + h)) [0..<n]"
    using map_add_upt [of "B * n" n, symmetric] by (simp add: add.commute)
  moreover have "[0..<Suc B * n] = [0..<B * n] @ [B * n..<B * n + n]"
    using upt_add_eq_append [of 0 "B * n" n] by (simp add: add.commute)
  ultimately show ?case using Suc by simp
qed

lemma view3_Inr:
  assumes "0 < h" and "0 < d" and "length x = B * h"
  shows "view3 h d x = Inr (map (\<lambda>b. take h (drop (b * h) x)) [0..<B])"
proof -
  have "length x * d = B * (h * d)" using assms(3) by simp
  then have "(length x * d) mod (h * d) = 0" and "(length x * d) div (h * d) = B"
    using assms(1,2) by simp_all
  with assms(1,2) show ?thesis by (simp add: view3_def)
qed

lemma view3_InrD:
  assumes "view3 h d x = Inr y"
  shows "0 < h" and "0 < d" and "length x = (length x div h) * h"
proof -
  from assms have nz: "h * d \<noteq> 0" and md: "(length x * d) mod (h * d) = 0"
    by (auto simp: view3_def split: if_splits)
  from nz show "0 < h" and d: "0 < d" by simp_all
  from md have "h * d dvd length x * d" by (simp add: dvd_eq_mod_eq_0)
  with d have "h dvd length x" by simp
  then show "length x = (length x div h) * h" by simp
qed

lemma block_nth:
  assumes "length x = B * n" and "b < B" and "h < n"
  shows "take n (drop (b * n) x) ! h = x ! (b * n + h)"
proof -
  have "b * n + n \<le> B * n"
  proof -
    from assms(2) have "Suc b \<le> B" by simp
    then have "Suc b * n \<le> B * n" by (rule mult_le_mono1)
    then show ?thesis by (simp add: add.commute)
  qed
  with assms show ?thesis by simp
qed

lemma index_in_block:
  assumes "b < B" and "h < (n::nat)"
  shows "b * n + h < B * n"
proof -
  from assms(2) have "b * n + h < b * n + n" by simp
  also have "\<dots> = Suc b * n" by simp
  also from assms(1) have "\<dots> \<le> B * n" by (simp only: Suc_le_eq [symmetric] mult_le_mono1)
  finally show ?thesis .
qed

text \<open>The result of \<^verbatim>\<open>get_indices\<close>: row \<open>i\<close> of the query belongs to head \<open>i mod heads\<close>
  and is answered by the selector of that head.\<close>

lemma get_indices_rows:
  assumes rows: "list_all (\<lambda>r. length r = k_dim m) q"
    and len: "length q = B * heads m" and B: "0 < B"
    and hs: "0 < heads m" and kd: "0 < k_dim m" and kn: "0 < knn m"
    and ks: "heads m \<le> length (keys m)"
    and k1: "\<And>h. h < heads m \<Longrightarrow> knn m \<le> length (fst (keys m ! h))"
    and k2: "\<And>h. h < heads m \<Longrightarrow> knn m \<le> length (snd (keys m ! h))"
    and w1: "\<And>h. h < heads m \<Longrightarrow>
               list_all (\<lambda>w. length w = k_dim m div 2) (fst (keys m ! h))"
    and w2: "\<And>h. h < heads m \<Longrightarrow>
               list_all (\<lambda>w. length w = k_dim m - k_dim m div 2) (snd (keys m ! h))"
  shows "get_indices m q =
           Inr (map (\<lambda>i. fst (select_row (knn m) (k_dim m) (keys m ! (i mod heads m)) (q ! i))) [0..<length q],
                map (\<lambda>i. snd (select_row (knn m) (k_dim m) (keys m ! (i mod heads m)) (q ! i))) [0..<length q])"
proof -
  let ?n = "heads m"
  let ?q3 = "map (\<lambda>b. take ?n (drop (b * ?n) q)) [0..<B]"
  let ?sel = "\<lambda>i. select_row (knn m) (k_dim m) (keys m ! (i mod ?n)) (q ! i)"
  let ?f = "\<lambda>i. if i < length (keys m)
               then get_indices_head (knn m) (k_dim m) (map (\<lambda>r. r ! i) ?q3) (keys m ! i)
               else Inl IndexError"
  let ?g = "\<lambda>h. (map (\<lambda>b. fst (?sel (b * ?n + h))) [0..<B], map (\<lambda>b. snd (?sel (b * ?n + h))) [0..<B])"
  have v3: "view3 ?n (k_dim m) q = Inr ?q3"
    by (rule view3_Inr [OF hs kd len])
  have head: "?f h = Inr (?g h)" if h: "h \<in> set [0..<?n]" for h
  proof -
    from h have hn: "h < ?n" by simp
    with ks have hk: "h < length (keys m)" by simp
    have qh: "map (\<lambda>r. r ! h) ?q3 = map (\<lambda>b. q ! (b * ?n + h)) [0..<B]"
      using block_nth [OF len _ hn] by simp
    have la: "list_all (\<lambda>r. length r = k_dim m) (map (\<lambda>b. q ! (b * ?n + h)) [0..<B])"
    proof -
      have "length (q ! (b * ?n + h)) = k_dim m" if "b < B" for b
      proof -
        from index_in_block [OF that hn] len have "b * ?n + h < length q" by simp
        then have "q ! (b * ?n + h) \<in> set q" by simp
        with rows show ?thesis by (simp add: list_all_iff)
      qed
      then show ?thesis by (simp add: list_all_iff)
    qed
    have ne: "map (\<lambda>b. q ! (b * ?n + h)) [0..<B] \<noteq> []" using B by simp
    have md: "(b * ?n + h) mod ?n = h" for b using hn by simp
    from get_indices_head_rows [OF la ne k1 [OF hn] k2 [OF hn] w1 [OF hn] w2 [OF hn]]
    have gh: "get_indices_head (knn m) (k_dim m) (map (\<lambda>b. q ! (b * ?n + h)) [0..<B]) (keys m ! h) = Inr (?g h)"
      using hn by (simp add: comp_def)
    have "?f h = get_indices_head (knn m) (k_dim m) (map (\<lambda>r. r ! h) ?q3) (keys m ! h)"
      using hk by simp
    also have "\<dots> = get_indices_head (knn m) (k_dim m) (map (\<lambda>b. q ! (b * ?n + h)) [0..<B]) (keys m ! h)"
      by (simp only: qh)
    also note gh
    finally show ?thesis .
  qed
  have seq: "sequence_err (map ?f [0..<?n]) = Inr (map ?g [0..<?n])"
    by (rule sequence_err_map_Inr) (rule head)
  have s: "concat (map (\<lambda>b. map (\<lambda>out. fst out ! b) (map ?g [0..<?n])) [0..<length ?q3])
             = map (\<lambda>i. fst (?sel i)) [0..<length q]"
  proof -
    have "map (\<lambda>b. map (\<lambda>out. fst out ! b) (map ?g [0..<?n])) [0..<length ?q3]
            = map (\<lambda>b. map (\<lambda>h. fst (?sel (b * ?n + h))) [0..<?n]) [0..<B]"
      by simp
    then show ?thesis
      by (simp only: concat_map_upt_blocks [of "\<lambda>i. fst (?sel i)" ?n B] len)
  qed
  have i: "concat (map (\<lambda>b. map (\<lambda>out. snd out ! b) (map ?g [0..<?n])) [0..<length ?q3])
             = map (\<lambda>i. snd (?sel i)) [0..<length q]"
  proof -
    have "map (\<lambda>b. map (\<lambda>out. snd out ! b) (map ?g [0..<?n])) [0..<length ?q3]
            = map (\<lambda>b. map (\<lambda>h. snd (?sel (b * ?n + h))) [0..<?n]) [0..<B]"
      by simp
    then show ?thesis
      by (simp only: concat_map_upt_blocks [of "\<lambda>i. snd (?sel i)" ?n B] len)
  qed
  from rows kn show ?thesis
    unfolding get_indices_def v3 bind_err_Inr Let_def seq s i by simp
qed


lemma bind_err_InrD:
  assumes "bind_err r f = Inr y"
  obtains v where "r = Inr v" and "f v = Inr y"
  using assms by (cases r) simp_all

lemma get_indices_InrD:
  assumes "get_indices m q = Inr r"
  shows "list_all (\<lambda>r. length r = k_dim m) q"
    and "0 < heads m" and "0 < k_dim m" and "0 < knn m"
    and "length q = (length q div heads m) * heads m"
    and "0 < length q div heads m"
    and "heads m \<le> length (keys m)"
    and "\<And>h. h < heads m \<Longrightarrow> knn m \<le> length (fst (keys m ! h))"
    and "\<And>h. h < heads m \<Longrightarrow> knn m \<le> length (snd (keys m ! h))"
    and "\<And>h. h < heads m \<Longrightarrow>
           list_all (\<lambda>w. length w = k_dim m div 2) (fst (keys m ! h))"
    and "\<And>h. h < heads m \<Longrightarrow>
           list_all (\<lambda>w. length w = k_dim m - k_dim m div 2) (snd (keys m ! h))"
proof -
  let ?n = "heads m"
  show rows: "list_all (\<lambda>r. length r = k_dim m) q"
    using assms by (auto simp: get_indices_def split: if_splits)
  with assms have b1: "bind_err (view3 ?n (k_dim m) q) (\<lambda>query.
          let bs = length query in
          bind_err (sequence_err (map (\<lambda>i.
                      if i < length (keys m)
                      then get_indices_head (knn m) (k_dim m) (map (\<lambda>q. q ! i) query) (keys m ! i)
                      else Inl IndexError) [0..<heads m]))
            (\<lambda>outputs.
               let s = map (\<lambda>b. map (\<lambda>out. fst out ! b) outputs) [0..<bs];
                   i = map (\<lambda>b. map (\<lambda>out. snd out ! b) outputs) [0..<bs]
               in if knn m = 0 then Inl RuntimeError
                  else Inr (concat s, concat i))) = Inr r"
    by (simp add: get_indices_def)
  then obtain q3 where v3: "view3 ?n (k_dim m) q = Inr q3"
    and b2: "bind_err (sequence_err (map (\<lambda>i.
                      if i < length (keys m)
                      then get_indices_head (knn m) (k_dim m) (map (\<lambda>q. q ! i) q3) (keys m ! i)
                      else Inl IndexError) [0..<heads m]))
            (\<lambda>outputs.
               let s = map (\<lambda>b. map (\<lambda>out. fst out ! b) outputs) [0..<length q3];
                   i = map (\<lambda>b. map (\<lambda>out. snd out ! b) outputs) [0..<length q3]
               in if knn m = 0 then Inl RuntimeError
                  else Inr (concat s, concat i)) = Inr r"
    by (rule bind_err_InrD) (simp add: Let_def)
  let ?f = "\<lambda>i. if i < length (keys m)
                      then get_indices_head (knn m) (k_dim m) (map (\<lambda>q. q ! i) q3) (keys m ! i)
                      else Inl IndexError"
  from b2 obtain outputs where seq: "sequence_err (map ?f [0..<?n]) = Inr outputs"
    and fin: "(if knn m = 0 then Inl RuntimeError
               else Inr (concat (map (\<lambda>b. map (\<lambda>out. fst out ! b) outputs) [0..<length q3]),
                         concat (map (\<lambda>b. map (\<lambda>out. snd out ! b) outputs) [0..<length q3]))) = Inr r"
    by (rule bind_err_InrD) (simp add: Let_def)
  from fin show "0 < knn m" by (simp split: if_splits)
  from view3_InrD [OF v3] show hs: "0 < ?n" and kd: "0 < k_dim m"
    and len: "length q = (length q div ?n) * ?n" by simp_all
  from v3 have q3: "length q3 = (length q * k_dim m) div (?n * k_dim m)"
    by (auto simp: view3_def split: if_splits)
  with kd have lq3: "length q3 = length q div ?n" by simp
  from sequence_err_InrD [OF seq] have mp: "map ?f [0..<?n] = map Inr outputs" .
  from arg_cong [OF mp, of length] have lo: "length outputs = ?n"
    by simp
  have each: "?f h = Inr (outputs ! h)" if "h < ?n" for h
  proof -
    from that have "?f h = map ?f [0..<?n] ! h" by simp
    also have "\<dots> = map Inr outputs ! h" by (simp only: mp)
    also from that lo have "\<dots> = Inr (outputs ! h)" by simp
    finally show ?thesis .
  qed
  have hd: "h < length (keys m) \<and>
            get_indices_head (knn m) (k_dim m) (map (\<lambda>q. q ! h) q3) (keys m ! h) = Inr (outputs ! h)"
    if "h < ?n" for h
    using each [OF that] by (simp split: if_splits)
  show "?n \<le> length (keys m)"
  proof (rule ccontr)
    assume "\<not> ?n \<le> length (keys m)"
    then have "length (keys m) < ?n" by simp
    from hd [OF this] show False by simp
  qed
  from hd [OF hs] have "get_indices_head (knn m) (k_dim m) (map (\<lambda>q. q ! 0) q3) (keys m ! 0) = Inr (outputs ! 0)"
    by simp
  from get_indices_head_InrD [OF this] have "q3 \<noteq> []" by simp
  then have "0 < length q3" by simp
  then show "0 < length q div ?n" by (simp only: lq3)
  fix h assume h: "h < ?n"
  from hd [OF h] have "get_indices_head (knn m) (k_dim m) (map (\<lambda>q. q ! h) q3) (keys m ! h) = Inr (outputs ! h)"
    by simp
  from get_indices_head_InrD [OF this]
  show "knn m \<le> length (fst (keys m ! h))" and "knn m \<le> length (snd (keys m ! h))"
    and "list_all (\<lambda>w. length w = k_dim m div 2) (fst (keys m ! h))"
    and "list_all (\<lambda>w. length w = k_dim m - k_dim m div 2) (snd (keys m ! h))"
    by simp_all
qed

lemma get_indices_Inr_rows:
  assumes "get_indices m q = Inr (s, i)"
  shows "s = map (\<lambda>j. fst (select_row (knn m) (k_dim m) (keys m ! (j mod heads m)) (q ! j))) [0..<length q]"
    and "i = map (\<lambda>j. snd (select_row (knn m) (k_dim m) (keys m ! (j mod heads m)) (q ! j))) [0..<length q]"
proof -
  note d = get_indices_InrD [OF assms]
  from get_indices_rows [OF d(1) d(5) d(6) d(2) d(3) d(4) d(7) d(8) d(9) d(10) d(11)] assms
  show "s = map (\<lambda>j. fst (select_row (knn m) (k_dim m) (keys m ! (j mod heads m)) (q ! j))) [0..<length q]"
    and "i = map (\<lambda>j. snd (select_row (knn m) (k_dim m) (keys m ! (j mod heads m)) (q ! j))) [0..<length q]"
    by simp_all
qed

lemma get_indices_shape:
  assumes "get_indices m q = Inr (s, i)"
  shows "length s = length q" and "length i = length q"
    and "list_all (\<lambda>r. length r = knn m) s" and "list_all (\<lambda>r. length r = knn m) i"
proof -
  note d = get_indices_InrD [OF assms]
  note r = get_indices_Inr_rows [OF assms]
  show "length s = length q" by (simp add: r(1))
  show "length i = length q" by (simp add: r(2))
  have md: "j mod heads m < heads m" for j using d(2) by simp
  show "list_all (\<lambda>r. length r = knn m) s"
    unfolding r(1) list_all_iff using select_row_lengths(1) [OF d(8) [OF md] d(9) [OF md]] by auto
  show "list_all (\<lambda>r. length r = knn m) i"
    unfolding r(2) list_all_iff using select_row_lengths(2) [OF d(8) [OF md] d(9) [OF md]] by auto
qed


lemma sum_exp_pos: "xs \<noteq> [] \<Longrightarrow> 0 < sum_list (map exp (xs :: real list))"
proof (induction xs)
  case Nil
  then show ?case by simp
next
  case (Cons x xs)
  have "0 \<le> sum_list (map exp xs)"
    by (rule sum_list_nonneg) auto
  moreover have "0 < exp x" by simp
  ultimately have "0 < exp x + sum_list (map exp xs)" by (rule add_pos_nonneg [rotated])
  then show ?case by simp
qed

lemma sum_list_divide: "sum_list (map (\<lambda>x. f x / z) xs) = sum_list (map f xs) / (z :: real)"
  by (induction xs) (simp_all add: add_divide_distrib)

lemma softmax_length: "length (softmax xs) = length xs"
  by (simp add: softmax_def)

lemma softmax_pos: "v \<in> set (softmax xs) \<Longrightarrow> 0 < v"
proof -
  assume "v \<in> set (softmax xs)"
  then obtain x where x: "x \<in> set xs" and v: "v = exp x / sum_list (map exp xs)"
    by (auto simp: softmax_def)
  from x have "xs \<noteq> []" by auto
  from sum_exp_pos [OF this] show ?thesis by (simp add: v)
qed

lemma softmax_sum: "xs \<noteq> [] \<Longrightarrow> sum_list (softmax xs) = 1"
proof -
  assume "xs \<noteq> []"
  from sum_exp_pos [OF this] have "sum_list (map exp xs) \<noteq> 0" by simp
  then show ?thesis
    unfolding softmax_def sum_list_divide by simp
qed

lemma view2_InrD:
  assumes "view2 r c x = Inr y"
  shows "r * c = length (concat x)" and "length y = r"
    and "\<And>i. i < r \<Longrightarrow> y ! i = take c (drop (i * c) (concat x))"
proof -
  from assms show e: "r * c = length (concat x)"
    by (auto simp: view2_def split: if_splits)
  with assms have y: "y = map (\<lambda>i. take c (drop (i * c) (concat x))) [0..<r]"
    by (simp add: view2_def)
  show "length y = r" by (simp add: y)
  fix i assume "i < r"
  then show "y ! i = take c (drop (i * c) (concat x))" by (simp add: y)
qed

lemma view2_row_length:
  assumes "view2 r c x = Inr y" and "i < r"
  shows "length (y ! i) = c"
proof -
  note d = view2_InrD [OF assms(1)]
  from index_in_block [OF assms(2), of 0 c] have "i * c + c \<le> r * c"
    using assms(2) by (metis Suc_leI mult_Suc mult_le_mono1 add.commute)
  with d(1) d(3) [OF assms(2)] show ?thesis by simp
qed

lemma take_drop_take:
  "a + k \<le> n \<Longrightarrow> take k (drop a (take n ys)) = take k (drop a ys)"
  by (simp add: drop_take min_def)

lemma merged_slice:
  assumes rows: "list_all (\<lambda>r. length r = k) x" and len: "length x = B * n"
    and b: "b < B" and h: "h < n"
  shows "take k (drop (h * k) (take (n * k) (drop (b * (n * k)) (concat x)))) = x ! (b * n + h)"
proof -
  from h have "Suc h \<le> n" by simp
  then have "Suc h * k \<le> n * k" by (rule mult_le_mono1)
  then have "h * k + k \<le> n * k" by (simp add: add.commute)
  then have "take k (drop (h * k) (take (n * k) (drop (b * (n * k)) (concat x))))
        = take k (drop (h * k) (drop (b * (n * k)) (concat x)))"
    by (rule take_drop_take)
  also have "\<dots> = take k (drop ((b * n + h) * k) (concat x))"
    by (simp add: algebra_simps)
  also have "\<dots> = x ! (b * n + h)"
    using index_in_block [OF b h] len by (intro concat_uniform_slice [OF rows]) simp
  finally show ?thesis .
qed

lemma forward_select_InrD:
  assumes "forward_select m masks x = Inr (indices, weights)"
  obtains q s i where "forward_query m masks x = Inr q" and "get_indices m q = Inr (s, i)"
    and "view2 (prod_list (butlast (shape x))) (heads m * knn m) i = Inr indices"
    and "view2 (prod_list (butlast (shape x))) (heads m * knn m) (map softmax s) = Inr weights"
proof -
  from assms obtain q where q: "forward_query m masks x = Inr q"
    and r1: "bind_err (get_indices m q) (\<lambda>(scores, indices).
       let bs = prod_list (butlast (shape x));
           scores = map softmax scores
       in bind_err (view2 bs (heads m * knn m) indices) (\<lambda>indices.
          bind_err (view2 bs (heads m * knn m) scores) (\<lambda>scores.
          Inr (indices, scores)))) = Inr (indices, weights)"
    unfolding forward_select_def by (rule bind_err_InrD)
  from r1 obtain si where si: "get_indices m q = Inr si"
    and r2: "(case si of (scores, indices) \<Rightarrow>
       let bs = prod_list (butlast (shape x));
           scores = map softmax scores
       in bind_err (view2 bs (heads m * knn m) indices) (\<lambda>indices.
          bind_err (view2 bs (heads m * knn m) scores) (\<lambda>scores.
          Inr (indices, scores)))) = Inr (indices, weights)"
    by (rule bind_err_InrD)
  obtain s i where sieq: "si = (s, i)" by (cases si)
  from r2 have r3: "bind_err (view2 (prod_list (butlast (shape x))) (heads m * knn m) i) (\<lambda>indices.
          bind_err (view2 (prod_list (butlast (shape x))) (heads m * knn m) (map softmax s)) (\<lambda>scores.
          Inr (indices, scores))) = Inr (indices, weights)"
    by (simp add: sieq Let_def)
  then obtain i2 where i2: "view2 (prod_list (butlast (shape x))) (heads m * knn m) i = Inr i2"
    and r4: "bind_err (view2 (prod_list (butlast (shape x))) (heads m * knn m) (map softmax s)) (\<lambda>scores.
          Inr (i2, scores)) = Inr (indices, weights)"
    by (rule bind_err_InrD)
  from r4 obtain w2 where w2: "view2 (prod_list (butlast (shape x))) (heads m * knn m) (map softmax s) = Inr w2"
    and r5: "Inr (i2, w2) = (Inr (indices, weights) :: error + nat list list \<times> matrix)"
    by (rule bind_err_InrD)
  from r5 have "i2 = indices" "w2 = weights" by simp_all
  with q si sieq i2 w2 that show ?thesis by simp
qed

text \<open>A module with two heads and \<open>knn = 2\<close>, read on the input \<open>[[1]]\<close>.\<close>

lemma example2_forward_query:
  "forward_query example_memory2 example_masks \<lparr> shape = [1, 1], data = [1] \<rparr> = Inr [[1, 1], [1, 1]]"
  by (simp add: forward_query_def example_memory2_def example_masks_def dropout_def dropout2_def
      view_rows_def view2_def query_proj_def nn_linear_def dot_def upt_rec)

lemma example2_get_indices:
  "get_indices example_memory2 [[1, 1], [1, 1]] = Inr ([[4, 3], [3, 1]], [[0, 2], [2, 0]])"
  by (simp add: get_indices_def example_memory2_def view3_def upt_rec get_indices_head_def
      topk_def topk_row_def linear_def dot_def cartesian_sum_def cartesian_index_def gather_def)

lemma example2_forward_select:
  "forward_select example_memory2 example_masks \<lparr> shape = [1, 1], data = [1] \<rparr>
     = Inr ([[0, 2, 2, 0]],
            [[exp 4 / (exp 4 + exp 3), exp 3 / (exp 4 + exp 3),
              exp 3 / (exp 3 + exp 1), exp 1 / (exp 3 + exp 1)]])"
  unfolding forward_select_def example2_forward_query bind_err_Inr example2_get_indices
  by (simp add: softmax_def view2_def example_memory2_def upt_rec)

lemma example2_forward:
  "forward example_memory2 example_masks \<lparr> shape = [1, 1], data = [1] \<rparr>
     = Inr \<lparr> shape = [1, 1],
             data = [exp 4 / (exp 4 + exp 3) * 1 + exp 3 / (exp 4 + exp 3) * 3
                     + exp 3 / (exp 3 + exp 1) * 3 + exp 1 / (exp 3 + exp 1) * 1] \<rparr>"
  unfolding forward_def example2_forward_select bind_err_Inr
  by (simp add: embedding_bag_def bag_sum_def dropout2_def example_memory2_def)

lemma softmax_nth:
  "t < length xs \<Longrightarrow> softmax xs ! t = exp (xs ! t) / sum_list (map exp xs)"
  by (simp add: softmax_def Let_def)

lemma take_drop_map_nth:
  "a + n \<le> length X \<Longrightarrow> take n (drop a X) = map (\<lambda>h. X ! (a + h)) [0..<n]"
  by (rule nth_equalityI) simp_all

lemma merged_row:
  assumes rows: "list_all (\<lambda>r. length r = k) X" and len: "length X = B * n" and b: "b < B"
  shows "take (n * k) (drop (b * (n * k)) (concat X)) = concat (map (\<lambda>h. X ! (b * n + h)) [0..<n])"
proof -
  let ?A = "take (b * n) X"
  let ?M = "take n (drop (b * n) X)"
  let ?C = "drop n (drop (b * n) X)"
  from b have "Suc b \<le> B" by simp
  then have "Suc b * n \<le> B * n" by (rule mult_le_mono1)
  with len have bound: "b * n + n \<le> length X" by (simp add: add.commute)
  have "?M @ ?C = drop (b * n) X" by (rule append_take_drop_id)
  then have "?A @ (?M @ ?C) = X" by (simp only: append_take_drop_id)
  then have "X = ?A @ (?M @ ?C)" by (rule sym)
  then have "concat X = concat (?A @ (?M @ ?C))" by (rule arg_cong)
  then have cx: "concat X = concat ?A @ (concat ?M @ concat ?C)" by simp
  have rA: "list_all (\<lambda>r. length r = k) ?A"
    using rows by (auto simp: list_all_iff dest: in_set_takeD)
  have rM: "list_all (\<lambda>r. length r = k) ?M"
    using rows by (auto simp: list_all_iff dest!: in_set_takeD in_set_dropD)
  from bound have "length ?A = b * n" and "length ?M = n" by simp_all
  with concat_uniform_length [OF rA] concat_uniform_length [OF rM]
  have lA: "length (concat ?A) = b * (n * k)" and lM: "length (concat ?M) = n * k"
    by (simp_all only: mult.assoc)
  have "take (n * k) (drop (b * (n * k)) (concat X)) = concat ?M"
    unfolding cx using lA lM by simp
  also from bound have "?M = map (\<lambda>h. X ! (b * n + h)) [0..<n]"
    by (rule take_drop_map_nth)
  finally show ?thesis .
qed

lemma get_indices_per_head:
  assumes gi: "get_indices m q = Inr (s, i)" and h: "h < heads m"
  shows "get_indices_head (knn m) (k_dim m)
           (map (\<lambda>b. q ! (b * heads m + h)) [0..<length q div heads m]) (keys m ! h)
         = Inr (map (\<lambda>b. s ! (b * heads m + h)) [0..<length q div heads m],
                map (\<lambda>b. i ! (b * heads m + h)) [0..<length q div heads m])"
proof -
  let ?n = "heads m"
  let ?B = "length q div ?n"
  let ?Q = "map (\<lambda>b. q ! (b * ?n + h)) [0..<?B]"
  note d = get_indices_InrD [OF gi]
  note r = get_indices_Inr_rows [OF gi]
  have idx: "b * ?n + h < length q" if "b < ?B" for b
    using index_in_block [OF that h] d(5) by simp
  have rows: "list_all (\<lambda>r. length r = k_dim m) ?Q"
    using d(1) idx by (auto simp: list_all_iff)
  from d(6) have ne: "?Q \<noteq> []" by simp
  have md: "(b * ?n + h) mod ?n = h" for b using h by simp
  have sb: "s ! (b * ?n + h) = fst (select_row (knn m) (k_dim m) (keys m ! h) (q ! (b * ?n + h)))"
    if "b < ?B" for b
    unfolding r(1) using idx [OF that] md by simp
  have ib: "i ! (b * ?n + h) = snd (select_row (knn m) (k_dim m) (keys m ! h) (q ! (b * ?n + h)))"
    if "b < ?B" for b
    unfolding r(2) using idx [OF that] md by simp
  from get_indices_head_rows [OF rows ne d(8) [OF h] d(9) [OF h] d(10) [OF h] d(11) [OF h]]
  show ?thesis using sb ib by (simp add: comp_def)
qed

text \<open>Claim C4. The softmax is taken over each row of the \<open>(bs * heads, knn)\<close> scores, that
  is per batch element and per head. The scores \<open>s\<close> are those that \<^verbatim>\<open>get_indices\<close> returns
  for the query of the input, and the rows of head \<open>h\<close> are what \<^verbatim>\<open>_get_indices\<close> returns
  for that head's queries and sub-keys. In the merged weights of batch element \<open>b\<close> the
  entry \<open>t\<close> of the slice of head \<open>h\<close> is \<open>exp s\<^sub>t / (exp s\<^sub>0 + \<dots> + exp s\<^bsub>knn-1\<^esub>)\<close> over that
  head's own \<open>knn\<close> scores for \<open>b\<close>; the entries are positive and the slice sums to 1 (in
  exact arithmetic).\<close>

theorem softmax_per_head:
  fixes m :: memory and masks :: dropout_masks and x :: tensor
    and indices :: "nat list list" and weights :: matrix and b h :: nat
  assumes sel: "forward_select m masks x = Inr (indices, weights)"
    and b: "b < length weights" and h: "h < heads m"
  shows "\<exists>q s i. forward_query m masks x = Inr q \<and> get_indices m q = Inr (s, i) \<and>
           length q = length weights * heads m \<and>
           get_indices_head (knn m) (k_dim m)
               (map (\<lambda>b'. q ! (b' * heads m + h)) [0..<length weights]) (keys m ! h)
             = Inr (map (\<lambda>b'. s ! (b' * heads m + h)) [0..<length weights],
                    map (\<lambda>b'. i ! (b' * heads m + h)) [0..<length weights]) \<and>
           length (weights ! b) = heads m * knn m \<and> 0 < knn m \<and>
           length (s ! (b * heads m + h)) = knn m \<and>
           (\<forall>t<knn m. weights ! b ! (h * knn m + t)
                        = exp (s ! (b * heads m + h) ! t) / sum_list (map exp (s ! (b * heads m + h)))) \<and>
           (\<forall>t<knn m. 0 < weights ! b ! (h * knn m + t)) \<and>
           sum_list (take (knn m) (drop (h * knn m) (weights ! b))) = 1"
proof -
  from sel obtain q s i where q: "forward_query m masks x = Inr q"
    and gi: "get_indices m q = Inr (s, i)"
    and vw: "view2 (prod_list (butlast (shape x))) (heads m * knn m) (map softmax s) = Inr weights"
    by (rule forward_select_InrD)
  let ?bs = "prod_list (butlast (shape x))"
  let ?n = "heads m"
  let ?k = "knn m"
  let ?B = "length q div ?n"
  let ?S = "map softmax s"
  let ?r = "s ! (b * ?n + h)"
  note d = get_indices_InrD [OF gi]
  note sh = get_indices_shape [OF gi]
  note v = view2_InrD [OF vw]
  have rows: "list_all (\<lambda>r. length r = ?k) ?S"
    using sh(3) by (simp add: list_all_iff softmax_length)
  have lS: "length ?S = ?B * ?n"
    using sh(1) d(5) by simp
  from concat_uniform_length [OF rows] lS have "length (concat ?S) = ?B * ?n * ?k" by simp
  with v(1) have "?bs * (?n * ?k) = ?B * (?n * ?k)" by (simp add: mult.assoc)
  with d(2) d(4) have bsB: "?bs = ?B" by simp
  with v(2) have lwB: "length weights = ?B" by simp
  from b v(2) have bb: "b < ?bs" by simp
  with bsB have bB: "b < ?B" by simp
  from d(5) lwB have lq: "length q = length weights * ?n" by simp
  have lw: "length (weights ! b) = ?n * ?k"
    by (rule view2_row_length [OF vw bb])
  have wb: "weights ! b = take (?n * ?k) (drop (b * (?n * ?k)) (concat ?S))"
    by (rule v(3) [OF bb])
  have idx: "b * ?n + h < length s"
    using index_in_block [OF bB h] lS by simp
  have slice: "take ?k (drop (h * ?k) (weights ! b)) = softmax ?r"
    unfolding wb using merged_slice [OF rows lS bB h] idx by simp
  from idx sh(3) have lrow: "length ?r = ?k"
    by (simp add: list_all_iff)
  with d(4) have ne: "?r \<noteq> []" by auto
  from h have "Suc h \<le> ?n" by simp
  then have "Suc h * ?k \<le> ?n * ?k" by (rule mult_le_mono1)
  then have hk: "h * ?k + ?k \<le> ?n * ?k" by (simp add: add.commute)
  have ent: "weights ! b ! (h * ?k + t) = softmax ?r ! t" if "t < ?k" for t
  proof -
    from hk lw have "h * ?k \<le> length (weights ! b)" by linarith
    then have "drop (h * ?k) (weights ! b) ! t = weights ! b ! (h * ?k + t)"
      by (rule nth_drop)
    with that have "take ?k (drop (h * ?k) (weights ! b)) ! t = weights ! b ! (h * ?k + t)"
      by simp
    with slice show ?thesis by simp
  qed
  have formula: "\<forall>t<?k. weights ! b ! (h * ?k + t) = exp (?r ! t) / sum_list (map exp ?r)"
    using ent lrow by (simp add: softmax_nth)
  have pos: "\<forall>t<?k. 0 < weights ! b ! (h * ?k + t)"
  proof (intro allI impI)
    fix t assume t: "t < ?k"
    with lrow have "softmax ?r ! t \<in> set (softmax ?r)" by (simp add: softmax_length)
    with softmax_pos have "0 < softmax ?r ! t" by blast
    with ent [OF t] show "0 < weights ! b ! (h * ?k + t)" by simp
  qed
  have sum: "sum_list (take ?k (drop (h * ?k) (weights ! b))) = 1"
    unfolding slice by (rule softmax_sum [OF ne])
  note tie = get_indices_per_head [OF gi h, folded lwB]
  from q gi lq tie lw d(4) lrow formula pos sum show ?thesis
    by (intro exI [of _ q] exI [of _ s] exI [of _ i]) simp
qed

text \<open>The second head of a module with two heads and \<open>knn = 2\<close>: its scores are 3 and 1 and
  its weights are \<open>exp 3 / (exp 3 + exp 1)\<close> and \<open>exp 1 / (exp 3 + exp 1)\<close>.\<close>

theorem softmax_per_head_witness:
  "forward_select example_memory2 example_masks \<lparr> shape = [1, 1], data = [1] \<rparr>
     = Inr ([[0, 2, 2, 0]],
            [[exp 4 / (exp 4 + exp 3), exp 3 / (exp 4 + exp 3),
              exp 3 / (exp 3 + exp 1), exp 1 / (exp 3 + exp 1)]]) \<and>
   heads example_memory2 = 2 \<and> knn example_memory2 = 2 \<and>
   get_indices example_memory2 [[1, 1], [1, 1]] = Inr ([[4, 3], [3, 1]], [[0, 2], [2, 0]]) \<and>
   get_indices_head 2 2 [[1, 1]] (keys example_memory2 ! 1) = Inr ([[3, 1]], [[2, 0]]) \<and>
   [[exp 4 / (exp 4 + exp 3), exp 3 / (exp 4 + exp 3),
     exp 3 / (exp 3 + exp 1), exp 1 / (exp 3 + exp 1)]] ! 0 ! (1 * 2 + 0)
     = exp 3 / sum_list (map exp [3, 1 :: real]) \<and>
   [[exp 4 / (exp 4 + exp 3), exp 3 / (exp 4 + exp 3),
     exp 3 / (exp 3 + exp 1), exp 1 / (exp 3 + exp 1)]] ! 0 ! (1 * 2 + 1)
     = exp 1 / sum_list (map exp [3, 1 :: real]) \<and>
   sum_list (take 2 (drop (1 * 2)
     ([[exp 4 / (exp 4 + exp 3), exp 3 / (exp 4 + exp 3),
        exp 3 / (exp 3 + exp 1), exp 1 / (exp 3 + exp 1 :: real)]] ! 0))) = 1"
proof -
  let ?W = "[[exp 4 / (exp 4 + exp 3), exp 3 / (exp 4 + exp 3),
              exp 3 / (exp 3 + exp 1), exp 1 / (exp 3 + exp 1 :: real)]]"
  have hs: "heads example_memory2 = 2" and kn: "knn example_memory2 = 2"
    and kd: "k_dim example_memory2 = 2"
    by (simp_all add: example_memory2_def)
  have h2: "0 < length ?W" by simp
  have h3: "1 < heads example_memory2" by (simp add: hs)
  from softmax_per_head [OF example2_forward_select h2 h3]
  obtain q s i where q: "forward_query example_memory2 example_masks \<lparr> shape = [1, 1], data = [1] \<rparr> = Inr q"
    and gi: "get_indices example_memory2 q = Inr (s, i)"
    and tie: "get_indices_head (knn example_memory2) (k_dim example_memory2)
               (map (\<lambda>b'. q ! (b' * heads example_memory2 + 1)) [0..<length ?W]) (keys example_memory2 ! 1)
             = Inr (map (\<lambda>b'. s ! (b' * heads example_memory2 + 1)) [0..<length ?W],
                    map (\<lambda>b'. i ! (b' * heads example_memory2 + 1)) [0..<length ?W])"
    and f: "\<forall>t<knn example_memory2. ?W ! 0 ! (1 * knn example_memory2 + t)
                        = exp (s ! (0 * heads example_memory2 + 1) ! t)
                            / sum_list (map exp (s ! (0 * heads example_memory2 + 1)))"
    and sm: "sum_list (take (knn example_memory2) (drop (1 * knn example_memory2) (?W ! 0))) = 1"
    by blast
  from q have qv: "q = [[1, 1], [1, 1]]"
    unfolding example2_forward_query by simp
  from gi have sv: "s = [[4, 3], [3, 1]]" and iv: "i = [[0, 2], [2, 0]]"
    unfolding qv example2_get_indices by simp_all
  from tie have c5: "get_indices_head 2 2 [[1, 1]] (keys example_memory2 ! 1) = Inr ([[3, 1]], [[2, 0]])"
    unfolding qv sv iv hs kn kd by simp
  from f have c6: "?W ! 0 ! (1 * 2 + 0) = exp 3 / sum_list (map exp [3, 1 :: real])"
    and c7: "?W ! 0 ! (1 * 2 + 1) = exp 1 / sum_list (map exp [3, 1 :: real])"
    unfolding sv hs kn by simp_all
  from sm have c8: "sum_list (take 2 (drop (1 * 2) (?W ! 0))) = 1"
    unfolding kn .
  from example2_forward_select hs kn example2_get_indices c5 c6 c7 c8 show ?thesis
    by (intro conjI)
qed

text \<open>The accumulation of the embedding bag against the gather-and-dot-product wording.\<close>

lemma bag_fold:
  assumes "\<And>i. i \<in> set idx \<Longrightarrow> length (W ! i) = d" and "length acc = d"
  shows "length (foldl (\<lambda>acc (i, w). map2 (+) acc (map (\<lambda>v. w * v) (W ! i))) acc (zip idx ws)) = d \<and>
         (\<forall>c<d. foldl (\<lambda>acc (i, w). map2 (+) acc (map (\<lambda>v. w * v) (W ! i))) acc (zip idx ws) ! c
                  = acc ! c + sum_list (map2 (\<lambda>w row. w * row ! c) ws (map (\<lambda>i. W ! i) idx)))"
  using assms
proof (induction idx arbitrary: ws acc)
  case Nil
  then show ?case by simp
next
  case (Cons j idx)
  show ?case
  proof (cases ws)
    case Nil
    with Cons.prems show ?thesis by simp
  next
    case (Cons w ws')
    let ?acc = "map2 (+) acc (map (\<lambda>v. w * v) (W ! j))"
    from Cons.prems have lj: "length (W ! j) = d" and la: "length acc = d"
      and rest: "\<And>i. i \<in> set idx \<Longrightarrow> length (W ! i) = d" by simp_all
    from lj la have l: "length ?acc = d" by simp
    from lj la have a: "?acc ! c = acc ! c + w * W ! j ! c" if "c < d" for c
      using that by simp
    from Cons.IH [OF rest l, of ws'] a Cons show ?thesis
      by (simp add: add.assoc)
  qed
qed

lemma bag_sum_weighted_sum:
  assumes "\<And>i. i \<in> set idx \<Longrightarrow> length (W ! i) = d"
  shows "bag_sum W d idx ws = weighted_sum d (gather_rows W idx) ws"
proof (rule nth_equalityI)
  have z: "length (replicate d (0::real)) = d" by simp
  note f = bag_fold [OF assms z, of idx ws, simplified]
  from f show "length (bag_sum W d idx ws) = length (weighted_sum d (gather_rows W idx) ws)"
    by (simp add: bag_sum_def weighted_sum_def)
  fix c assume "c < length (bag_sum W d idx ws)"
  with f have c: "c < d" by (simp add: bag_sum_def)
  with f show "bag_sum W d idx ws ! c = weighted_sum d (gather_rows W idx) ws ! c"
    by (simp add: bag_sum_def weighted_sum_def gather_rows_def)
qed

lemma embedding_bag_InrD:
  assumes "embedding_bag W d idx ws = Inr y"
  shows "list_all (list_all (\<lambda>i. i < length W)) idx" and "y = map2 (bag_sum W d) idx ws"
  using assms by (auto simp: embedding_bag_def split: if_splits)

lemma embedding_bag_weighted_sum:
  assumes "embedding_bag W d idx ws = Inr y" and rows: "list_all (\<lambda>r. length r = d) W"
  shows "y = map2 (\<lambda>is w. weighted_sum d (gather_rows W is) w) idx ws"
proof -
  note e = embedding_bag_InrD [OF assms(1)]
  have "bag_sum W d is w = weighted_sum d (gather_rows W is) w" if "(is, w) \<in> set (zip idx ws)" for "is" w
  proof (rule bag_sum_weighted_sum)
    fix i assume i: "i \<in> set is"
    from that have "is \<in> set idx" by (rule set_zip_leftD)
    with e(1) i have "i < length W" by (auto simp: list_all_iff)
    then have "W ! i \<in> set W" by simp
    with rows show "length (W ! i) = d" by (simp add: list_all_iff)
  qed
  then have "map2 (bag_sum W d) idx ws = map2 (\<lambda>is w. weighted_sum d (gather_rows W is) w) idx ws"
    by auto
  with e(2) show ?thesis by simp
qed

lemma forward_InrD:
  assumes "forward m masks x = Inr out"
  obtains indices weights y y' where "forward_select m masks x = Inr (indices, weights)"
    and "embedding_bag (values_weight m) (v_dim m) indices weights = Inr y"
    and "dropout2 (value_dropout m) (training m) (value_mask masks) y = Inr y'"
    and "data out = concat y'"
    and "shape out = (if 2 \<le> length (butlast (shape x)) then butlast (shape x) @ [v_dim m]
                     else [length y', v_dim m])"
proof -
  from assms obtain iw where iw: "forward_select m masks x = Inr iw"
    and r1: "(case iw of (indices, scores) \<Rightarrow>
     bind_err (embedding_bag (values_weight m) (v_dim m) indices scores) (\<lambda>output.
     bind_err (dropout2 (value_dropout m) (training m) (value_mask masks) output) (\<lambda>output.
       let prefix_shape = butlast (shape x)
       in Inr (if length prefix_shape \<ge> 2
               then \<lparr> shape = prefix_shape @ [v_dim m], data = concat output \<rparr>
               else \<lparr> shape = [length output, v_dim m], data = concat output \<rparr>)))) = Inr out"
    unfolding forward_def by (rule bind_err_InrD)
  obtain indices weights where iweq: "iw = (indices, weights)" by (cases iw)
  from r1 have r2: "bind_err (embedding_bag (values_weight m) (v_dim m) indices weights) (\<lambda>output.
     bind_err (dropout2 (value_dropout m) (training m) (value_mask masks) output) (\<lambda>output.
       let prefix_shape = butlast (shape x)
       in Inr (if length prefix_shape \<ge> 2
               then \<lparr> shape = prefix_shape @ [v_dim m], data = concat output \<rparr>
               else \<lparr> shape = [length output, v_dim m], data = concat output \<rparr>))) = Inr out"
    by (simp add: iweq)
  then obtain y where y: "embedding_bag (values_weight m) (v_dim m) indices weights = Inr y"
    and r3: "bind_err (dropout2 (value_dropout m) (training m) (value_mask masks) y) (\<lambda>output.
       let prefix_shape = butlast (shape x)
       in Inr (if length prefix_shape \<ge> 2
               then \<lparr> shape = prefix_shape @ [v_dim m], data = concat output \<rparr>
               else \<lparr> shape = [length output, v_dim m], data = concat output \<rparr>)) = Inr out"
    by (rule bind_err_InrD)
  from r3 obtain y' where y': "dropout2 (value_dropout m) (training m) (value_mask masks) y = Inr y'"
    and r4: "(let prefix_shape = butlast (shape x)
       in Inr (if length prefix_shape \<ge> 2
               then \<lparr> shape = prefix_shape @ [v_dim m], data = concat y' \<rparr>
               else \<lparr> shape = [length y', v_dim m], data = concat y' \<rparr>)) = (Inr out :: error + tensor)"
    by (rule bind_err_InrD)
  from r4 have "data out = concat y'"
    and "shape out = (if 2 \<le> length (butlast (shape x)) then butlast (shape x) @ [v_dim m]
                     else [length y', v_dim m])"
    by (auto simp: Let_def split: if_splits)
  with iw iweq y y' that show ?thesis by simp
qed

lemma weighted_sum_length: "length (weighted_sum d rows ws) = d"
  by (simp add: weighted_sum_def)

lemma example_memory_wf: "wf_memory example_memory"
  by (simp add: wf_memory_def wf_keys_def wf_batchnorm_def example_memory_def)

lemma example_memory2_wf: "wf_memory example_memory2"
  by (simp add: wf_memory_def wf_keys_def wf_batchnorm_def example_memory2_def)

text \<open>Claim C3. In evaluation mode the output of \<^verbatim>\<open>forward\<close> is, for every batch element
  \<open>b\<close>, the weighted sum of rows of the value table: the rows are those at the \<open>heads * knn\<close>
  indices that \<^verbatim>\<open>get_indices\<close> returned for \<open>b\<close> (head after head, each head's indices being
  what \<^verbatim>\<open>_get_indices\<close> returns for that head's queries and sub-keys), and the weight of
  a row is \<open>exp s / (exp s\<^sub>0 + \<dots> + exp s\<^bsub>knn-1\<^esub>)\<close> for its score \<open>s\<close> among the \<open>knn\<close> scores of
  its head. Gather the rows, then take the dot product with the weights; a row selected
  by several heads is gathered and weighted each time.\<close>

theorem output_is_weighted_row_sum:
  fixes m :: memory and masks :: dropout_masks and x out :: tensor
  assumes wf: "wf_memory m" and ev: "\<not> training m"
    and fw: "forward m masks x = Inr out"
  shows "\<exists>q s i. forward_query m masks x = Inr q \<and> get_indices m q = Inr (s, i) \<and>
           length q = prod_list (butlast (shape x)) * heads m \<and>
           (\<forall>h<heads m.
              get_indices_head (knn m) (k_dim m)
                  (map (\<lambda>b. q ! (b * heads m + h)) [0..<prod_list (butlast (shape x))]) (keys m ! h)
                = Inr (map (\<lambda>b. s ! (b * heads m + h)) [0..<prod_list (butlast (shape x))],
                       map (\<lambda>b. i ! (b * heads m + h)) [0..<prod_list (butlast (shape x))])) \<and>
           length (data out) = prod_list (butlast (shape x)) * v_dim m \<and>
           (\<forall>b<prod_list (butlast (shape x)).
              list_all (\<lambda>j. j < length (values_weight m))
                (concat (map (\<lambda>h. i ! (b * heads m + h)) [0..<heads m])) \<and>
              take (v_dim m) (drop (b * v_dim m) (data out))
                = weighted_sum (v_dim m)
                    (gather_rows (values_weight m)
                       (concat (map (\<lambda>h. i ! (b * heads m + h)) [0..<heads m])))
                    (concat (map (\<lambda>h. map (\<lambda>v. exp v / sum_list (map exp (s ! (b * heads m + h))))
                                          (s ! (b * heads m + h))) [0..<heads m])))"
proof -
  let ?bs = "prod_list (butlast (shape x))"
  let ?n = "heads m"
  let ?k = "knn m"
  let ?W = "values_weight m"
  let ?d = "v_dim m"
  from fw obtain indices weights y y' where sel: "forward_select m masks x = Inr (indices, weights)"
    and eb: "embedding_bag ?W ?d indices weights = Inr y"
    and dr: "dropout2 (value_dropout m) (training m) (value_mask masks) y = Inr y'"
    and dt: "data out = concat y'"
    by (rule forward_InrD)
  from dr ev have yy: "y' = y"
    by (auto simp: dropout2_def split: if_splits)
  from wf have wrows: "list_all (\<lambda>r. length r = ?d) ?W"
    unfolding wf_memory_def by blast
  note ew = embedding_bag_weighted_sum [OF eb wrows]
  note er = embedding_bag_InrD(1) [OF eb]
  from sel obtain q s i where q: "forward_query m masks x = Inr q"
    and gi: "get_indices m q = Inr (s, i)"
    and vi: "view2 ?bs (?n * ?k) i = Inr indices"
    and vw: "view2 ?bs (?n * ?k) (map softmax s) = Inr weights"
    by (rule forward_select_InrD)
  let ?B = "length q div ?n"
  let ?S = "map softmax s"
  note d = get_indices_InrD [OF gi]
  note sh = get_indices_shape [OF gi]
  note v = view2_InrD [OF vw]
  note u = view2_InrD [OF vi]
  have rows: "list_all (\<lambda>r. length r = ?k) ?S"
    using sh(3) by (simp add: list_all_iff softmax_length)
  have lS: "length ?S = ?B * ?n"
    using sh(1) d(5) by simp
  have li: "length i = ?B * ?n"
    using sh(2) d(5) by simp
  from concat_uniform_length [OF rows] lS have "length (concat ?S) = ?B * ?n * ?k" by simp
  with v(1) have "?bs * (?n * ?k) = ?B * (?n * ?k)" by (simp add: mult.assoc)
  with d(2) d(4) have bsB: "?bs = ?B" by simp
  from d(5) bsB have lq: "length q = ?bs * ?n" by simp
  have tie: "\<forall>h<?n. get_indices_head ?k (k_dim m) (map (\<lambda>b. q ! (b * ?n + h)) [0..<?bs]) (keys m ! h)
                = Inr (map (\<lambda>b. s ! (b * ?n + h)) [0..<?bs], map (\<lambda>b. i ! (b * ?n + h)) [0..<?bs])"
    using get_indices_per_head [OF gi] unfolding bsB by blast
  have ly: "length y = ?bs"
    unfolding ew using u(2) v(2) by simp
  have yrows: "list_all (\<lambda>r. length r = ?d) y"
    unfolding ew by (auto simp: list_all_iff weighted_sum_length)
  from concat_uniform_length [OF yrows] ly dt yy have ld: "length (data out) = ?bs * ?d"
    by simp
  have row: "list_all (\<lambda>j. j < length ?W) (concat (map (\<lambda>h. i ! (b * ?n + h)) [0..<?n])) \<and>
             take ?d (drop (b * ?d) (data out))
                = weighted_sum ?d
                    (gather_rows ?W (concat (map (\<lambda>h. i ! (b * ?n + h)) [0..<?n])))
                    (concat (map (\<lambda>h. map (\<lambda>v. exp v / sum_list (map exp (s ! (b * ?n + h))))
                                          (s ! (b * ?n + h))) [0..<?n]))"
    if bb: "b < ?bs" for b
  proof -
    from bb bsB have bB: "b < ?B" by simp
    have ib: "indices ! b = concat (map (\<lambda>h. i ! (b * ?n + h)) [0..<?n])"
      unfolding u(3) [OF bb] by (rule merged_row [OF sh(4) li bB])
    have "weights ! b = concat (map (\<lambda>h. ?S ! (b * ?n + h)) [0..<?n])"
      unfolding v(3) [OF bb] by (rule merged_row [OF rows lS bB])
    also have "\<dots> = concat (map (\<lambda>h. softmax (s ! (b * ?n + h))) [0..<?n])"
    proof -
      have "?S ! (b * ?n + h) = softmax (s ! (b * ?n + h))" if "h < ?n" for h
        using index_in_block [OF bB that] lS by simp
      then have "map (\<lambda>h. ?S ! (b * ?n + h)) [0..<?n] = map (\<lambda>h. softmax (s ! (b * ?n + h))) [0..<?n]"
        by (intro map_cong refl) simp
      then show ?thesis by (rule arg_cong)
    qed
    finally have wb: "weights ! b = concat (map (\<lambda>h. map (\<lambda>v. exp v / sum_list (map exp (s ! (b * ?n + h))))
                                          (s ! (b * ?n + h))) [0..<?n])"
      by (simp add: softmax_def Let_def)
    from bb u(2) er have "list_all (\<lambda>j. j < length ?W) (indices ! b)"
      by (simp add: list_all_length)
    then have r1: "list_all (\<lambda>j. j < length ?W) (concat (map (\<lambda>h. i ! (b * ?n + h)) [0..<?n]))"
      unfolding ib .
    from bb ly have "take ?d (drop (b * ?d) (concat y)) = y ! b"
      by (simp add: concat_uniform_slice [OF yrows])
    also from bb u(2) v(2) have "y ! b = weighted_sum ?d (gather_rows ?W (indices ! b)) (weights ! b)"
      unfolding ew by simp
    finally have "take ?d (drop (b * ?d) (data out))
        = weighted_sum ?d (gather_rows ?W (indices ! b)) (weights ! b)"
      unfolding dt yy .
    then have r2: "take ?d (drop (b * ?d) (data out))
                = weighted_sum ?d
                    (gather_rows ?W (concat (map (\<lambda>h. i ! (b * ?n + h)) [0..<?n])))
                    (concat (map (\<lambda>h. map (\<lambda>v. exp v / sum_list (map exp (s ! (b * ?n + h))))
                                          (s ! (b * ?n + h))) [0..<?n]))"
      unfolding ib wb .
    from r1 r2 show ?thesis by (rule conjI)
  qed
  from q gi lq tie ld row show ?thesis
    by (intro exI [of _ q] exI [of _ s] exI [of _ i]) blast
qed

text \<open>In the example with two heads and \<open>knn = 2\<close> the first head selects rows 0 and 2 with
  scores 4 and 3, the second head rows 2 and 0 with scores 3 and 1: each of the two rows
  is gathered twice, with the weights of the two heads.\<close>

theorem output_is_weighted_row_sum_witness:
  "wf_memory example_memory2 \<and> \<not> training example_memory2 \<and>
   forward example_memory2 example_masks \<lparr> shape = [1, 1], data = [1] \<rparr>
     = Inr \<lparr> shape = [1, 1],
             data = [exp 4 / (exp 4 + exp 3) * 1 + exp 3 / (exp 4 + exp 3) * 3
                     + exp 3 / (exp 3 + exp 1) * 3 + exp 1 / (exp 3 + exp 1) * 1] \<rparr> \<and>
   get_indices example_memory2 [[1, 1], [1, 1]] = Inr ([[4, 3], [3, 1]], [[0, 2], [2, 0]]) \<and>
   get_indices_head 2 2 [[1, 1]] (keys example_memory2 ! 0) = Inr ([[4, 3]], [[0, 2]]) \<and>
   get_indices_head 2 2 [[1, 1]] (keys example_memory2 ! 1) = Inr ([[3, 1]], [[2, 0]]) \<and>
   take 1 (drop (0 * 1)
      [exp 4 / (exp 4 + exp 3) * 1 + exp 3 / (exp 4 + exp 3) * 3
        + exp 3 / (exp 3 + exp 1) * 3 + exp 1 / (exp 3 + exp 1) * (1 :: real)])
     = weighted_sum 1 (gather_rows (values_weight example_memory2) [0, 2, 2, 0])
         [exp 4 / (exp 4 + exp 3), exp 3 / (exp 4 + exp 3),
          exp 3 / (exp 3 + exp 1), exp 1 / (exp 3 + exp 1)]"
proof -
  let ?x = "\<lparr> shape = [1, 1], data = [1 :: real] \<rparr>"
  let ?o = "[exp 4 / (exp 4 + exp 3) * 1 + exp 3 / (exp 4 + exp 3) * 3
             + exp 3 / (exp 3 + exp 1) * 3 + exp 1 / (exp 3 + exp 1) * (1 :: real)]"
  have ev: "\<not> training example_memory2" by (simp add: example_memory2_def)
  have hs: "heads example_memory2 = 2" and kn: "knn example_memory2 = 2"
    and kd: "k_dim example_memory2 = 2" and vd: "v_dim example_memory2 = 1"
    by (simp_all add: example_memory2_def)
  have bs: "prod_list (butlast (shape ?x)) = 1" by simp
  from output_is_weighted_row_sum [OF example_memory2_wf ev example2_forward]
  obtain q s i where q: "forward_query example_memory2 example_masks ?x = Inr q"
    and gi: "get_indices example_memory2 q = Inr (s, i)"
    and tie: "\<forall>h<heads example_memory2.
              get_indices_head (knn example_memory2) (k_dim example_memory2)
                  (map (\<lambda>b. q ! (b * heads example_memory2 + h)) [0..<prod_list (butlast (shape ?x))])
                  (keys example_memory2 ! h)
                = Inr (map (\<lambda>b. s ! (b * heads example_memory2 + h)) [0..<prod_list (butlast (shape ?x))],
                       map (\<lambda>b. i ! (b * heads example_memory2 + h)) [0..<prod_list (butlast (shape ?x))])"
    and rw: "\<forall>b<prod_list (butlast (shape ?x)).
              list_all (\<lambda>j. j < length (values_weight example_memory2))
                (concat (map (\<lambda>h. i ! (b * heads example_memory2 + h)) [0..<heads example_memory2])) \<and>
              take (v_dim example_memory2) (drop (b * v_dim example_memory2)
                   (data \<lparr> shape = [1, 1], data = ?o \<rparr>))
                = weighted_sum (v_dim example_memory2)
                    (gather_rows (values_weight example_memory2)
                       (concat (map (\<lambda>h. i ! (b * heads example_memory2 + h)) [0..<heads example_memory2])))
                    (concat (map (\<lambda>h. map (\<lambda>v. exp v / sum_list (map exp (s ! (b * heads example_memory2 + h))))
                                          (s ! (b * heads example_memory2 + h))) [0..<heads example_memory2]))"
    by blast
  from q have qv: "q = [[1, 1], [1, 1]]"
    unfolding example2_forward_query by simp
  from gi have sv: "s = [[4, 3], [3, 1]]" and iv: "i = [[0, 2], [2, 0]]"
    unfolding qv example2_get_indices by simp_all
  have two: "[0..<2] = [0, Suc 0]" by (simp add: upt_rec)
  have h0: "0 < heads example_memory2" and h1: "1 < heads example_memory2"
    by (simp_all add: hs)
  from tie [rule_format, OF h0]
  have t0: "get_indices_head 2 2 [[1, 1]] (keys example_memory2 ! 0) = Inr ([[4, 3]], [[0, 2]])"
    unfolding qv sv iv hs kn kd bs by simp
  from tie [rule_format, OF h1]
  have t1: "get_indices_head 2 2 [[1, 1]] (keys example_memory2 ! 1) = Inr ([[3, 1]], [[2, 0]])"
    unfolding qv sv iv hs kn kd bs by simp
  from rw have "take 1 (drop (0 * 1) ?o)
     = weighted_sum 1 (gather_rows (values_weight example_memory2) [0, 2, 2, 0])
         [exp 4 / (exp 4 + exp 3), exp 3 / (exp 4 + exp 3),
          exp 3 / (exp 3 + exp 1), exp 1 / (exp 3 + exp 1)]"
    unfolding sv iv hs vd bs two by (simp add: weighted_sum_length)
  with example_memory2_wf ev example2_forward example2_get_indices t0 t1 show ?thesis
    by (intro conjI)
qed

subsection \<open>The shape of the output\<close>

text \<open>Every stage of \<^verbatim>\<open>forward\<close> returns on an input of the right shape.\<close>

lemma dropout_Inr:
  assumes "0 \<le> p" and "p \<le> 1"
  shows "\<exists>y. dropout p tr keep x = Inr y \<and> length y = length x"
  using assms by (simp add: dropout_def)

lemma dropout2_Inr:
  assumes "0 \<le> p" and "p \<le> 1"
  shows "\<exists>y. dropout2 p tr keep x = Inr y \<and> length y = length x \<and>
           (list_all (\<lambda>r. length r = c) x \<longrightarrow> list_all (\<lambda>r. length r = c) y)"
proof (cases tr)
  case False
  with assms show ?thesis by (simp add: dropout2_def)
next
  case True
  let ?y = "map2 (\<lambda>r row. map2 (\<lambda>c v. dropout_elem p (keep r c) v) [0..<length row] row) [0..<length x] x"
  have "list_all (\<lambda>r. length r = c) ?y" if "list_all (\<lambda>r. length r = c) x"
    using that by (auto simp: list_all_iff dest: set_zip_rightD)
  moreover have "length ?y = length x" by simp
  moreover from True assms have "dropout2 p tr keep x = Inr ?y" by (simp add: dropout2_def)
  ultimately show ?thesis by blast
qed

lemma slice_length:
  assumes "length xs = r * c" and "i < r"
  shows "length (take c (drop (i * c) xs)) = c"
proof -
  from assms(2) have "Suc i \<le> r" by simp
  then have "Suc i * c \<le> r * c" by (rule mult_le_mono1)
  then have "i * c + c \<le> r * c" by (simp add: add.commute)
  with assms(1) show ?thesis by simp
qed

lemma view_rows_Inr:
  assumes "0 < c" and "length xs = r * c"
  shows "\<exists>y. view_rows c xs = Inr y \<and> length y = r \<and> list_all (\<lambda>row. length row = c) y"
proof -
  let ?y = "map (\<lambda>i. take c (drop (i * c) xs)) [0..<r]"
  from assms have "view_rows c xs = Inr ?y" by (simp add: view_rows_def)
  moreover have "length ?y = r" by simp
  moreover have "list_all (\<lambda>row. length row = c) ?y"
    using slice_length [OF assms(2)] by (simp add: list_all_iff)
  ultimately show ?thesis by blast
qed

lemma view2_Inr:
  assumes "r * c = length (concat x)"
  shows "\<exists>y. view2 r c x = Inr y \<and> length y = r \<and> list_all (\<lambda>row. length row = c) y \<and>
           (\<forall>i<r. set (y ! i) \<subseteq> set (concat x))"
proof -
  let ?y = "map (\<lambda>i. take c (drop (i * c) (concat x))) [0..<r]"
  from assms have "view2 r c x = Inr ?y" by (simp add: view2_def)
  moreover have "length ?y = r" by simp
  moreover have "list_all (\<lambda>row. length row = c) ?y"
    using slice_length [OF assms [symmetric]] by (simp add: list_all_iff)
  moreover have "\<forall>i<r. set (?y ! i) \<subseteq> set (concat x)"
  proof (intro allI impI)
    fix i assume "i < r"
    then have "?y ! i = take c (drop (i * c) (concat x))" by simp
    moreover have "set (take c (drop (i * c) (concat x))) \<subseteq> set (concat x)"
      by (meson set_take_subset set_drop_subset subset_trans)
    ultimately show "set (?y ! i) \<subseteq> set (concat x)" by simp
  qed
  ultimately show ?thesis by blast
qed

lemma nn_linear_Inr:
  assumes "length b = length W" and "list_all (\<lambda>w. length w = d) W"
    and "list_all (\<lambda>r. length r = d) x"
  shows "\<exists>y. nn_linear d W b x = Inr y \<and> length y = length x \<and>
           list_all (\<lambda>r. length r = length W) y"
  using assms by (simp add: nn_linear_def list_all_iff)

lemma batch_norm_Inr:
  assumes "tr \<longrightarrow> length x \<noteq> 1" and "list_all (\<lambda>r. length r = n) x"
    and "wf_batchnorm n (Some bn)"
  shows "\<exists>y. batch_norm n bn tr x = Inr y \<and> length y = length x \<and>
           list_all (\<lambda>r. length r = n) y"
  using assms by (cases tr) (auto simp: batch_norm_def wf_batchnorm_def list_all_iff)

lemma query_proj_Inr:
  assumes wf: "wf_memory m"
    and bn: "training m \<and> proj_bn m \<noteq> None \<longrightarrow> length x \<noteq> 1"
    and xr: "list_all (\<lambda>r. length r = input_dim m) x"
  shows "\<exists>y. query_proj m x = Inr y \<and> length y = length x \<and>
           list_all (\<lambda>r. length r = heads m * k_dim m) y"
proof -
  from wf have lb: "length (proj_bias m) = length (proj_weight m)"
    and lw: "length (proj_weight m) = heads m * k_dim m"
    and wr: "list_all (\<lambda>r. length r = input_dim m) (proj_weight m)"
    and wb: "wf_batchnorm (heads m * k_dim m) (proj_bn m)"
    unfolding wf_memory_def by simp_all
  from nn_linear_Inr [OF lb wr xr]
  obtain y where y: "nn_linear (input_dim m) (proj_weight m) (proj_bias m) x = Inr y"
    and ly: "length y = length x"
    and rows: "list_all (\<lambda>r. length r = heads m * k_dim m) y"
    unfolding lw by blast
  show ?thesis
  proof (cases "proj_bn m")
    case None
    with y ly rows show ?thesis by (simp add: query_proj_def)
  next
    case (Some b)
    with bn ly have tr: "training m \<longrightarrow> length y \<noteq> 1" by simp
    from wb Some have wb': "wf_batchnorm (heads m * k_dim m) (Some b)" by simp
    from batch_norm_Inr [OF tr rows wb'] ly y Some lw show ?thesis
      by (auto simp: query_proj_def)
  qed
qed

lemma prod_list_shape:
  assumes "s \<noteq> []"
  shows "prod_list s = prod_list (butlast s) * last (s :: nat list)"
proof -
  from assms have "s = butlast s @ [last s]" by simp
  then have "prod_list s = prod_list (butlast s @ [last s])" by simp
  then show ?thesis by simp
qed

lemma forward_query_Inr:
  assumes wf: "wf_memory m"
    and tx: "wf_tensor x" and ne: "shape x \<noteq> []" and lst: "last (shape x) = input_dim m"
    and lead: "butlast (shape x) \<noteq> []" and idim: "0 < input_dim m"
    and pi: "0 \<le> input_dropout m" "input_dropout m \<le> 1"
    and pq: "0 \<le> query_dropout m" "query_dropout m \<le> 1"
    and bn: "training m \<and> proj_bn m \<noteq> None \<longrightarrow> prod_list (butlast (shape x)) \<noteq> 1"
  shows "\<exists>q. forward_query m masks x = Inr q \<and>
           length q = prod_list (butlast (shape x)) * heads m \<and>
           list_all (\<lambda>r. length r = k_dim m) q"
proof -
  let ?bs = "prod_list (butlast (shape x))"
  from dropout_Inr [OF pi, of "training m" "input_mask masks" "data x"]
  obtain x1 where x1: "dropout (input_dropout m) (training m) (input_mask masks) (data x) = Inr x1"
    and l1: "length x1 = length (data x)" by blast
  from tx prod_list_shape [OF ne] lst l1 have "length x1 = ?bs * input_dim m"
    by (simp add: wf_tensor_def)
  from view_rows_Inr [OF idim this]
  obtain x2 where x2: "view_rows (input_dim m) x1 = Inr x2" and l2: "length x2 = ?bs"
    and r2: "list_all (\<lambda>r. length r = input_dim m) x2" by blast
  from bn l2 have "training m \<and> proj_bn m \<noteq> None \<longrightarrow> length x2 \<noteq> 1" by simp
  from query_proj_Inr [OF wf this r2]
  obtain q1 where q1: "query_proj m x2 = Inr q1" and lq1: "length q1 = length x2"
    and rq1: "list_all (\<lambda>r. length r = heads m * k_dim m) q1" by blast
  from concat_uniform_length [OF rq1] lq1 l2
  have "?bs * heads m * k_dim m = length (concat q1)" by (simp add: mult.assoc)
  from view2_Inr [OF this]
  obtain q2 where q2: "view2 (?bs * heads m) (k_dim m) q1 = Inr q2"
    and lq2: "length q2 = ?bs * heads m" and rq2: "list_all (\<lambda>r. length r = k_dim m) q2" by blast
  from dropout2_Inr [OF pq, of "training m" "query_mask masks" q2 "k_dim m"] rq2
  obtain q3 where q3: "dropout2 (query_dropout m) (training m) (query_mask masks) q2 = Inr q3"
    and lq3: "length q3 = length q2" and rq3: "list_all (\<lambda>r. length r = k_dim m) q3" by blast
  have "forward_query m masks x = Inr q3"
    unfolding forward_query_def Let_def using ne lst lead
    by (simp add: x1 x2 q1 q2 q3)
  with lq3 lq2 rq3 show ?thesis by simp
qed


lemma select_row_index_bound:
  assumes k1: "kn \<le> length (fst sk)" and k2: "kn \<le> length (snd sk)"
    and eq: "length (snd sk) = length (fst sk)"
    and r: "r \<in> set (snd (select_row kn kd sk q))"
  shows "r < length (fst sk) ^ 2"
proof -
  let ?n = "length (fst sk)"
  let ?c1 = "topk_row kn (half_scores1 kd sk q)"
  let ?c2 = "topk_row kn (half_scores2 kd sk q)"
  from r select_row_lengths(2) [OF k1 k2, of kd q]
  obtain t where t: "t < kn" and rt: "r = snd (select_row kn kd sk q) ! t"
    by (auto simp: in_set_conv_nth)
  let ?p = "snd (topk_row kn (cartesian_sum (fst ?c1) (fst ?c2))) ! t"
  let ?i = "snd ?c1 ! (?p div kn)"
  let ?j = "snd ?c2 ! (?p mod kn)"
  note sp = select_row_pair [OF k1 k2 t, of kd q]
  have l1: "length (snd ?c1) = kn"
    using k1 by (simp add: topk_row_length_snd half_scores1_def)
  have l2: "length (snd ?c2) = kn"
    using k2 by (simp add: topk_row_length_snd half_scores2_def)
  from sp(1) have pos: "0 < kn" by (cases kn) auto
  from sp(1) have "?p div kn < kn" by (simp add: less_mult_imp_div_less)
  with l1 have mi: "?i \<in> set (snd ?c1)" by simp
  from pos l2 have mj: "?j \<in> set (snd ?c2)" by simp
  from topk_row_index_bound [OF mi] have bi: "?i < ?n" by (simp add: half_scores1_def)
  from topk_row_index_bound [OF mj] eq have bj: "?j < ?n" by (simp add: half_scores2_def)
  from index_in_block [OF bi bj] have "?i * ?n + ?j < ?n * ?n" .
  with sp(3) rt show ?thesis by (simp add: power2_eq_square)
qed

lemma forward_select_Inr:
  assumes wf: "wf_memory m"
    and tx: "wf_tensor x" and ne: "shape x \<noteq> []" and lst: "last (shape x) = input_dim m"
    and lead: "butlast (shape x) \<noteq> []" and idim: "0 < input_dim m"
    and bs: "0 < prod_list (butlast (shape x))"
    and hs: "0 < heads m" and kn: "0 < knn m" and kk: "knn m \<le> n_keys m"
    and pi: "0 \<le> input_dropout m" "input_dropout m \<le> 1"
    and pq: "0 \<le> query_dropout m" "query_dropout m \<le> 1"
    and bn: "training m \<and> proj_bn m \<noteq> None \<longrightarrow> prod_list (butlast (shape x)) \<noteq> 1"
  shows "\<exists>indices weights. forward_select m masks x = Inr (indices, weights) \<and>
           length indices = prod_list (butlast (shape x)) \<and>
           length weights = prod_list (butlast (shape x)) \<and>
           list_all (list_all (\<lambda>i. i < n_keys m ^ 2)) indices"
proof -
  let ?bs = "prod_list (butlast (shape x))"
  let ?n = "heads m"
  from forward_query_Inr [OF wf tx ne lst lead idim pi pq bn, of masks]
  obtain q where q: "forward_query m masks x = Inr q" and lq: "length q = ?bs * ?n"
    and rq: "list_all (\<lambda>r. length r = k_dim m) q" by blast
  from wf have kd: "0 < k_dim m" and wk: "wf_keys ?n (n_keys m) (k_dim m div 2) (keys m)"
    and ev: "k_dim m mod 2 = 0"
    unfolding wf_memory_def by simp_all
  from ev have half: "k_dim m - k_dim m div 2 = k_dim m div 2" by presburger
  from wf_keysD(1) [OF wk hs] have ks: "?n \<le> length (keys m)" by simp
  have k1: "knn m \<le> length (fst (keys m ! h))" if "h < ?n" for h
    using wf_keysD(2) [OF wk that] kk by simp
  have k2: "knn m \<le> length (snd (keys m ! h))" if "h < ?n" for h
    using wf_keysD(3) [OF wk that] kk by simp
  have w1: "list_all (\<lambda>w. length w = k_dim m div 2) (fst (keys m ! h))" if "h < ?n" for h
    by (rule wf_keysD(4) [OF wk that])
  have w2: "list_all (\<lambda>w. length w = k_dim m - k_dim m div 2) (snd (keys m ! h))" if "h < ?n" for h
    unfolding half by (rule wf_keysD(5) [OF wk that])
  let ?S = "map (\<lambda>i. fst (select_row (knn m) (k_dim m) (keys m ! (i mod ?n)) (q ! i))) [0..<length q]"
  let ?I = "map (\<lambda>i. snd (select_row (knn m) (k_dim m) (keys m ! (i mod ?n)) (q ! i))) [0..<length q]"
  have gi: "get_indices m q = Inr (?S, ?I)"
    by (rule get_indices_rows [OF rq lq bs hs kd kn ks k1 k2 w1 w2])
  note sh = get_indices_shape [OF gi]
  have bound: "r < n_keys m ^ 2" if "r \<in> set (concat ?I)" for r
  proof -
    from that obtain j where j: "j < length q"
      and r: "r \<in> set (snd (select_row (knn m) (k_dim m) (keys m ! (j mod ?n)) (q ! j)))"
      by auto
    from hs have md: "j mod ?n < ?n" by simp
    from wf_keysD(2,3) [OF wk md]
    have e: "length (snd (keys m ! (j mod ?n))) = length (fst (keys m ! (j mod ?n)))"
      and n: "length (fst (keys m ! (j mod ?n))) = n_keys m" by simp_all
    from select_row_index_bound [OF k1 [OF md] k2 [OF md] e r] n show ?thesis by simp
  qed
  from concat_uniform_length [OF sh(4)] sh(2) lq
  have "?bs * (?n * knn m) = length (concat ?I)" by (simp add: mult.assoc)
  from view2_Inr [OF this]
  obtain i2 where i2: "view2 ?bs (?n * knn m) ?I = Inr i2" and li2: "length i2 = ?bs"
    and si2: "\<forall>b<?bs. set (i2 ! b) \<subseteq> set (concat ?I)" by blast
  have rows: "list_all (\<lambda>r. length r = knn m) (map softmax ?S)"
    using sh(3) by (simp add: list_all_iff softmax_length)
  from concat_uniform_length [OF rows] lq
  have "?bs * (?n * knn m) = length (concat (map softmax ?S))" by (simp add: mult.assoc)
  from view2_Inr [OF this]
  obtain w2 where w2: "view2 ?bs (?n * knn m) (map softmax ?S) = Inr w2" and lw2: "length w2 = ?bs"
    by blast
  have "list_all (list_all (\<lambda>i. i < n_keys m ^ 2)) i2"
  proof -
    have "i < n_keys m ^ 2" if "row \<in> set i2" and "i \<in> set row" for row i
    proof -
      from that(1) li2 obtain b where "b < ?bs" and "row = i2 ! b"
        by (auto simp: in_set_conv_nth)
      with si2 that(2) have "i \<in> set (concat ?I)" by blast
      then show ?thesis by (rule bound)
    qed
    then show ?thesis by (simp add: list_all_iff)
  qed
  moreover have "forward_select m masks x = Inr (i2, w2)"
    by (simp only: forward_select_def q bind_err_Inr gi prod.case Let_def i2 w2)
  ultimately show ?thesis using li2 lw2 by blast
qed

lemma bag_sum_length:
  assumes "\<And>i. i \<in> set idx \<Longrightarrow> length (W ! i) = d"
  shows "length (bag_sum W d idx ws) = d"
proof -
  have z: "length (replicate d (0::real)) = d" by simp
  from bag_fold [OF assms z, of idx ws] show ?thesis by (simp add: bag_sum_def)
qed

lemma embedding_bag_Inr:
  assumes inr: "list_all (list_all (\<lambda>i. i < length W)) idx"
    and rows: "list_all (\<lambda>r. length r = d) W" and len: "length ws = length idx"
  shows "\<exists>y. embedding_bag W d idx ws = Inr y \<and> length y = length idx \<and>
           list_all (\<lambda>r. length r = d) y"
proof -
  let ?y = "map2 (bag_sum W d) idx ws"
  have "length (bag_sum W d is w) = d" if "(is, w) \<in> set (zip idx ws)" for "is" w
  proof (rule bag_sum_length)
    fix i assume i: "i \<in> set is"
    from that have "is \<in> set idx" by (rule set_zip_leftD)
    with inr i have "i < length W" by (auto simp: list_all_iff)
    then have "W ! i \<in> set W" by simp
    with rows show "length (W ! i) = d" by (simp add: list_all_iff)
  qed
  then have "list_all (\<lambda>r. length r = d) ?y" by (auto simp: list_all_iff)
  moreover from len have "length ?y = length idx" by simp
  moreover from inr have "embedding_bag W d idx ws = Inr ?y" by (simp add: embedding_bag_def)
  ultimately show ?thesis by blast
qed

lemma singleton_shape:
  fixes ys :: "nat list"
  assumes "ys \<noteq> []" and "\<not> 2 \<le> length ys"
  shows "ys = [prod_list ys]"
proof (cases ys)
  case Nil
  with assms(1) show ?thesis by simp
next
  case (Cons a zs)
  with assms(2) have "zs = []" by (cases zs) simp_all
  with Cons show ?thesis by simp
qed

text \<open>Claim C2, as amended. On a module with the shapes of the constructor, at least one
  head, \<open>1 \<le> knn \<le> n_keys\<close> and dropout rates that are probabilities, \<^verbatim>\<open>forward\<close> returns
  for every input with last dimension \<open>input_dim\<close>, at least one leading dimension and no
  dimension of size 0 (and, in training mode with batch normalisation, more than one row
  in the flattened batch) a tensor whose shape is the leading dimensions of the input
  followed by \<open>output_dim\<close>.\<close>

theorem forward_output_shape:
  fixes m :: memory and masks :: dropout_masks and x :: tensor
  assumes wf: "wf_memory m"
    and tx: "wf_tensor x" and ne: "shape x \<noteq> []" and lst: "last (shape x) = input_dim m"
    and lead: "butlast (shape x) \<noteq> []" and nonempty: "0 < prod_list (shape x)"
    and hs: "0 < heads m" and kn: "0 < knn m" and kk: "knn m \<le> n_keys m"
    and pi: "0 \<le> input_dropout m" "input_dropout m \<le> 1"
    and pq: "0 \<le> query_dropout m" "query_dropout m \<le> 1"
    and pv: "0 \<le> value_dropout m" "value_dropout m \<le> 1"
    and bn: "training m \<and> proj_bn m \<noteq> None \<longrightarrow> prod_list (butlast (shape x)) \<noteq> 1"
  shows "\<exists>out. forward m masks x = Inr out \<and>
           shape out = butlast (shape x) @ [output_dim m] \<and> wf_tensor out"
proof -
  let ?bs = "prod_list (butlast (shape x))"
  let ?pre = "butlast (shape x)"
  from nonempty prod_list_shape [OF ne] lst have bs: "0 < ?bs" and idim: "0 < input_dim m"
    by simp_all
  from forward_select_Inr [OF wf tx ne lst lead idim bs hs kn kk pi pq bn, of masks]
  obtain indices weights where sel: "forward_select m masks x = Inr (indices, weights)"
    and li: "length indices = ?bs" and lw: "length weights = ?bs"
    and ir: "list_all (list_all (\<lambda>i. i < n_keys m ^ 2)) indices" by blast
  from wf have sz0: "length (values_weight m) = mem_size m" and ms: "mem_size m = n_keys m ^ 2"
    and rows: "list_all (\<lambda>r. length r = v_dim m) (values_weight m)"
    and vd: "v_dim m = output_dim m"
    unfolding wf_memory_def by blast+
  from sz0 ms have sz: "length (values_weight m) = n_keys m ^ 2" by simp
  from ir sz have inr: "list_all (list_all (\<lambda>i. i < length (values_weight m))) indices" by simp
  from li lw have "length weights = length indices" by simp
  from embedding_bag_Inr [OF inr rows this]
  obtain y where y: "embedding_bag (values_weight m) (v_dim m) indices weights = Inr y"
    and ly: "length y = length indices" and ry: "list_all (\<lambda>r. length r = v_dim m) y" by blast
  from dropout2_Inr [OF pv, of "training m" "value_mask masks" y "v_dim m"] ry
  obtain y' where y': "dropout2 (value_dropout m) (training m) (value_mask masks) y = Inr y'"
    and ly': "length y' = length y" and ry': "list_all (\<lambda>r. length r = v_dim m) y'" by blast
  let ?out = "if 2 \<le> length ?pre
              then \<lparr> shape = ?pre @ [v_dim m], data = concat y' \<rparr>
              else \<lparr> shape = [length y', v_dim m], data = concat y' \<rparr>"
  have fw: "forward m masks x = Inr ?out"
    unfolding forward_def sel bind_err_Inr by (simp add: y y' Let_def)
  have lbs: "length y' = ?bs" using ly' ly li by simp
  have one: "?pre = [?bs]" if "\<not> 2 \<le> length ?pre"
    by (rule singleton_shape [OF lead that])
  have shp: "shape ?out = ?pre @ [output_dim m]"
  proof (cases "2 \<le> length ?pre")
    case True
    then show ?thesis by (simp add: vd)
  next
    case False
    from one [OF False] have "[length y', v_dim m] = ?pre @ [output_dim m]"
      by (simp add: lbs vd)
    with False show ?thesis by simp
  qed
  have dat: "data ?out = concat y'" by simp
  from concat_uniform_length [OF ry'] lbs vd have "length (concat y') = ?bs * output_dim m"
    by simp
  with shp dat have "wf_tensor ?out"
    unfolding wf_tensor_def by simp
  with fw shp show ?thesis by blast
qed


text \<open>Leading dimensions \<open>(2, 3)\<close> on the example module.\<close>

theorem forward_output_shape_witness:
  "wf_memory example_memory \<and>
   wf_tensor \<lparr> shape = [2, 3, 1], data = [1, 2, 3, 4, 5, 6] \<rparr> \<and>
   shape \<lparr> shape = [2, 3, 1], data = [1, 2, 3, 4, 5, 6] \<rparr> \<noteq> [] \<and>
   last (shape \<lparr> shape = [2, 3, 1], data = [1, 2, 3, 4, 5, 6] \<rparr>) = input_dim example_memory \<and>
   butlast (shape \<lparr> shape = [2, 3, 1], data = [1, 2, 3, 4, 5, 6] \<rparr>) \<noteq> [] \<and>
   0 < prod_list (shape \<lparr> shape = [2, 3, 1], data = [1, 2, 3, 4, 5, 6] \<rparr>) \<and>
   0 < heads example_memory \<and> 0 < knn example_memory \<and>
   knn example_memory \<le> n_keys example_memory \<and>
   0 \<le> input_dropout example_memory \<and> input_dropout example_memory \<le> 1 \<and>
   0 \<le> query_dropout example_memory \<and> query_dropout example_memory \<le> 1 \<and>
   0 \<le> value_dropout example_memory \<and> value_dropout example_memory \<le> 1 \<and>
   \<not> training example_memory \<and>
   (\<exists>out. forward example_memory example_masks \<lparr> shape = [2, 3, 1], data = [1, 2, 3, 4, 5, 6] \<rparr> = Inr out \<and>
      shape out = [2, 3, 1] \<and> wf_tensor out)"
proof -
  let ?x = "\<lparr> shape = [2, 3, 1], data = [1, 2, 3, 4, 5, 6] \<rparr>"
  have tx: "wf_tensor ?x" by (simp add: wf_tensor_def)
  have ne: "shape ?x \<noteq> []" by simp
  have lst: "last (shape ?x) = input_dim example_memory" by (simp add: example_memory_def)
  have lead: "butlast (shape ?x) \<noteq> []" by simp
  have nonempty: "0 < prod_list (shape ?x)" by simp
  have cfg: "0 < heads example_memory" "0 < knn example_memory"
    "knn example_memory \<le> n_keys example_memory"
    by (simp_all add: example_memory_def)
  have pi: "0 \<le> input_dropout example_memory" "input_dropout example_memory \<le> 1"
    and pq: "0 \<le> query_dropout example_memory" "query_dropout example_memory \<le> 1"
    and pv: "0 \<le> value_dropout example_memory" "value_dropout example_memory \<le> 1"
    by (simp_all add: example_memory_def)
  have ev: "\<not> training example_memory" by (simp add: example_memory_def)
  then have bn: "training example_memory \<and> proj_bn example_memory \<noteq> None
      \<longrightarrow> prod_list (butlast (shape ?x)) \<noteq> 1" by simp
  from forward_output_shape [OF example_memory_wf tx ne lst lead nonempty cfg pi pq pv bn, of example_masks]
  obtain out where "forward example_memory example_masks ?x = Inr out"
    and "shape out = butlast (shape ?x) @ [output_dim example_memory]" and "wf_tensor out"
    by blast
  moreover have "butlast (shape ?x) @ [output_dim example_memory] = [2, 3, 1]"
    by (simp add: example_memory_def)
  ultimately have "\<exists>out. forward example_memory example_masks ?x = Inr out \<and>
      shape out = [2, 3, 1] \<and> wf_tensor out" by auto
  with example_memory_wf tx ne lst lead nonempty cfg pi pq pv ev show ?thesis
    by blast
qed

lemma example_forward_query_no_batch:
  "forward_query example_memory example_masks \<lparr> shape = [1], data = [1] \<rparr> = Inl TypeError"
  by (simp add: forward_query_def example_memory_def example_masks_def dropout_def view_rows_def
      query_proj_def nn_linear_def dot_def)

text \<open>Claim C2, as stated, includes inputs without a leading dimension. On the example module
  the input of shape \<open>(input_dim)\<close> does not give an output of shape \<open>(output_dim)\<close>:
  the read ends in TypeError at the reshape of the query.\<close>

theorem forward_no_leading_dimension_counterexample:
  "wf_memory example_memory \<and> \<not> training example_memory \<and>
   wf_tensor \<lparr> shape = [1], data = [1] \<rparr> \<and>
   last (shape \<lparr> shape = [1], data = [1] \<rparr>) = input_dim example_memory \<and>
   butlast (shape \<lparr> shape = [1], data = [1] \<rparr>) = [] \<and>
   forward example_memory example_masks \<lparr> shape = [1], data = [1] \<rparr> = Inl TypeError"
proof -
  have "forward example_memory example_masks \<lparr> shape = [1], data = [1] \<rparr> = Inl TypeError"
    unfolding forward_def forward_select_def example_forward_query_no_batch by simp
  moreover have "wf_tensor \<lparr> shape = [1], data = [1] \<rparr>" by (simp add: wf_tensor_def)
  moreover have "last (shape \<lparr> shape = [1], data = [1] \<rparr>) = input_dim example_memory"
    by (simp add: example_memory_def)
  moreover have "\<not> training example_memory" by (simp add: example_memory_def)
  ultimately show ?thesis using example_memory_wf by simp
qed

end
